theory Spec2Isabelle
  imports Main "HOL-Library.AList"
begin

section \<open>Data model\<close>

text \<open>
  The plugin class \<^verbatim>\<open>Tenderly\<close> assembles an upload request from a list of
  \<^verbatim>\<open>ContractByName\<close> values, the host configuration and the dependency graph
  returned by the host build tool. JavaScript \<^verbatim>\<open>undefined\<close> is \<open>None\<close>; a
  JavaScript object used as a dictionary is an association list in insertion
  order with unique keys (the order \<^verbatim>\<open>Object.entries\<close> enumerates string keys
  that are not array indices; source paths and network identifiers as property
  names are taken to be of that kind).
\<close>

record contractByName =
  name :: string
  address :: string
  network :: "string option"

text \<open>
  A node of the resolved source graph. The source reads \<^verbatim>\<open>sourceName\<close> and
  \<^verbatim>\<open>content.rawContent\<close>; the import edges are what the dependency resolver
  follows.
\<close>

record resolvedFile =
  sourceName :: string
  rawContent :: string
  dependencies :: "string list"

type_synonym dependencyGraph = "resolvedFile list"

record tenderlyContract =
  contractName :: string
  source :: string
  sourcePath :: string
  networks :: "(string \<times> string) list"
  compilerName :: string
  compilerVersion :: string

record 'cfg tenderlyContractUploadRequest =
  contracts :: "tenderlyContract list"
  config :: 'cfg

text \<open>
  What the methods read from \<^verbatim>\<open>this.env\<close> and from \<^verbatim>\<open>./index\<close>:
  \<open>networkArg\<close> is \<^verbatim>\<open>env.hardhatArguments.network\<close>, \<open>project\<close> and \<open>username\<close>
  are \<^verbatim>\<open>env.config.tenderly.project\<close> and \<^verbatim>\<open>.username\<close>, \<open>solcVersion\<close> is
  \<^verbatim>\<open>env.config.solidity.compilers[0].version\<close>. The constants \<^verbatim>\<open>PluginName\<close>
  and \<^verbatim>\<open>NetworkMap\<close> (module \<^verbatim>\<open>./index\<close>) and the result of
  \<^verbatim>\<open>newCompilerConfig(env.config)\<close> (module \<^verbatim>\<open>./util\<close>) are parameters:
  \<open>pluginName\<close>, \<open>networkMap\<close> (the own entries of the table, each key once)
  and \<open>compilerConfig\<close>. Two parameters stand for the JavaScript runtime:
  \<open>inheritedProperties\<close>, the properties that the table object inherits from its
  prototype, each with the string its value converts to as a property name
  (for an object literal \<^verbatim>\<open>constructor\<close>, \<^verbatim>\<open>toString\<close>, \<^verbatim>\<open>__proto__\<close> and so on), and
  \<open>toLowerCase\<close>, the lower-casing of strings (\<^verbatim>\<open>String.prototype.toLowerCase\<close>,
  which follows the Unicode case mapping).
\<close>

record 'cfg hre =
  networkArg :: "string option"
  project :: "string option"
  username :: "string option"
  solcVersion :: string
  compilerConfig :: 'cfg
  pluginName :: string
  networkMap :: "(string \<times> string) list"
  inheritedProperties :: "(string \<times> string) list"
  toLowerCase :: "string \<Rightarrow> string"

text \<open>
  The observable effects: lines written by \<^verbatim>\<open>console.log\<close> (oldest first) and
  the calls made to \<^verbatim>\<open>TenderlyService.verifyContracts\<close> and
  \<^verbatim>\<open>TenderlyService.pushContracts\<close>, with their arguments.
\<close>

record 'cfg world =
  console :: "string list"
  verifyCalls :: "'cfg tenderlyContractUploadRequest list"
  pushCalls :: "('cfg tenderlyContractUploadRequest \<times> string \<times> string) list"

definition consoleLog :: "string \<Rightarrow> 'cfg world \<Rightarrow> 'cfg world" where
  "consoleLog line w = w\<lparr>console := console w @ [line]\<rparr>"

section \<open>Strings\<close>

text \<open>
  \<^verbatim>\<open>s.split(sep)\<close> for a one-character separator: the pieces between the
  occurrences of \<open>sep\<close>; the result is never empty (\<^verbatim>\<open>"".split("/")\<close> is
  \<^verbatim>\<open>[""]\<close>).
\<close>

fun split :: "char \<Rightarrow> string \<Rightarrow> string list" where
  "split sep [] = [[]]"
| "split sep (c # cs) =
     (if c = sep then [] # split sep cs
      else (case split sep cs of
              [] \<Rightarrow> [[c]]
            | w # ws \<Rightarrow> (c # w) # ws))"

text \<open>
  \<^verbatim>\<open>sourcePath.split("/").slice(-1)[0].split(".")[0]\<close>: the last path segment, up
  to its first dot. Both lists are non-empty (lemma \<open>split_not_Nil\<close>), so
  \<open>last\<close> and \<open>hd\<close> read an element that exists.
\<close>

definition shortName :: "string \<Rightarrow> string" where
  "shortName p = hd (split CHR ''.'' (last (split CHR ''/'' p)))"

text \<open>
  Lower-casing of the ASCII letters, other characters unchanged: what
  \<^verbatim>\<open>String.prototype.toLowerCase\<close> gives on a string of ASCII characters. The
  methods take the lower-casing of the runtime as a parameter (field
  \<open>toLowerCase\<close> below); this function is the one the scenarios pass.
\<close>

definition asciiLowerChar :: "char \<Rightarrow> char" where
  "asciiLowerChar c =
     (if 65 \<le> (of_char c :: nat) \<and> (of_char c :: nat) \<le> 90
      then char_of (of_char c + (32 :: nat)) else c)"

definition asciiLowerCase :: "string \<Rightarrow> string" where
  "asciiLowerCase s = map asciiLowerChar s"

section \<open>Dependency resolver\<close>

text \<open>
  Modelled from the spec: the accumulator and the visited-set that
  \<^verbatim>\<open>resolveDependencies\<close> (module \<^verbatim>\<open>./util\<close>, not among the sources) mutates in
  place. \<open>sources\<close> is \<^verbatim>\<open>metadata.sources\<close> (path and raw content), \<open>visited\<close> the
  keys of the \<^verbatim>\<open>visited\<close> record, and \<open>writes\<close> the paths the resolver has
  assigned into \<^verbatim>\<open>metadata.sources\<close>, oldest first.
\<close>

record resolveState =
  sources :: "(string \<times> string) list"
  visited :: "string set"
  writes :: "string list"

definition lookupFile :: "dependencyGraph \<Rightarrow> string \<Rightarrow> resolvedFile option" where
  "lookupFile g p = find (\<lambda>f. sourceName f = p) g"

definition sourceNames :: "dependencyGraph \<Rightarrow> string set" where
  "sourceNames g = set (map sourceName g)"

text \<open>Modelled from the spec: marking a path in the visited-set.\<close>

definition markVisited :: "string \<Rightarrow> resolveState \<Rightarrow> resolveState" where
  "markVisited p st = st\<lparr>visited := insert p (visited st)\<rparr>"

text \<open>
  Modelled from the spec: the resolver populating the accumulator with the raw
  content of a file, under the file's path.
\<close>

definition recordSource :: "resolvedFile \<Rightarrow> resolveState \<Rightarrow> resolveState" where
  "recordSource f st =
     st\<lparr>sources := AList.update (sourceName f) (rawContent f) (sources st),
        writes := writes st @ [sourceName f]\<rparr>"

text \<open>
  Modelled from the spec: the recursion of \<^verbatim>\<open>resolveDependencies\<close> (module
  \<^verbatim>\<open>./util\<close>, which is not among the sources), run with its pending calls as
  an explicit list: the head is the call being made, and the imports of a file
  are put in front of the calls its callers still have to make. The spec
  (4.1): populate the accumulator with the raw content of the starting file
  and recursively do the same for every file it imports, skipping any path
  already present in the visited-set. A path that is absent from the graph
  fails soft: it is marked and nothing is recorded.
\<close>

function resolvePending :: "dependencyGraph \<Rightarrow> string list \<Rightarrow> resolveState \<Rightarrow> resolveState" where
  "resolvePending g [] st = st"
| "resolvePending g (p # ps) st =
     (if p \<in> visited st then resolvePending g ps st
      else (case lookupFile g p of
              None \<Rightarrow> resolvePending g ps (markVisited p st)
            | Some f \<Rightarrow> resolvePending g (dependencies f @ ps) (recordSource f (markVisited p st))))"
  by pat_completeness auto

text \<open>
  Every call either marks a file of the graph that was not marked before, or
  leaves the marks of the graph's files as they are and shortens the list.
\<close>

termination
proof (relation "measures [\<lambda>(g, ps, st). card (sourceNames g - visited st),
                           \<lambda>(g, ps, st). length ps]", goal_cases)
  case 1
  show ?case by simp
next
  case (2 g p ps st)
  then show ?case by simp
next
  case (3 g p ps st)
  then have "p \<notin> sourceNames g"
    by (auto simp: lookupFile_def sourceNames_def find_None_iff)
  then show ?case by (simp add: markVisited_def)
next
  case (4 g p ps st f)
  from 4(2) have "p \<in> sourceNames g"
    by (auto simp: lookupFile_def sourceNames_def find_Some_iff)
  with 4(1) have "sourceNames g - insert p (visited st) \<subset> sourceNames g - visited st"
    by auto
  moreover have "finite (sourceNames g - visited st)"
    by (simp add: sourceNames_def)
  ultimately have "card (sourceNames g - insert p (visited st)) < card (sourceNames g - visited st)"
    by (rule psubset_card_mono [rotated])
  then show ?case by (simp add: markVisited_def recordSource_def)
qed

text \<open>
  Modelled from the spec: \<^verbatim>\<open>resolveDependencies(data, sourcePath, metadata, visited)\<close>
  of module \<^verbatim>\<open>./util\<close>, which is not among the sources. The metadata
  accumulator and the visited-set are the state; the call returns it updated.
\<close>

definition resolveDependencies :: "dependencyGraph \<Rightarrow> string \<Rightarrow> resolveState \<Rightarrow> resolveState" where
  "resolveDependencies g p st = resolvePending g [p] st"

section \<open>Request assembler\<close>

text \<open>
  \<^verbatim>\<open>getContracts\<close>, the body of the inner loop over the requested contracts
  for one resolved file: a contract of another name is skipped; otherwise the
  file's content is assigned under its path and its dependencies are resolved
  with a fresh visited-set.
\<close>

definition getContracts_contract ::
  "dependencyGraph \<Rightarrow> resolvedFile \<Rightarrow> contractByName \<Rightarrow> (string \<times> string) list \<Rightarrow> (string \<times> string) list" where
  "getContracts_contract g resolved contract srcs =
     (if name contract \<noteq> shortName (sourceName resolved) then srcs
      else sources (resolveDependencies g (sourceName resolved)
             \<lparr>sources = AList.update (sourceName resolved) (rawContent resolved) srcs,
              visited = {}, writes = []\<rparr>))"

text \<open>The callback of \<^verbatim>\<open>data._resolvedFiles.forEach\<close>.\<close>

definition getContracts_file ::
  "dependencyGraph \<Rightarrow> contractByName list \<Rightarrow> resolvedFile \<Rightarrow> (string \<times> string) list \<Rightarrow> (string \<times> string) list" where
  "getContracts_file g flatContracts resolved srcs =
     fold (getContracts_contract g resolved) flatContracts srcs"

text \<open>\<^verbatim>\<open>metadata.sources\<close> after the \<^verbatim>\<open>forEach\<close>, starting from the empty object.\<close>

definition getContracts_sources ::
  "dependencyGraph \<Rightarrow> contractByName list \<Rightarrow> (string \<times> string) list" where
  "getContracts_sources g flatContracts = fold (getContracts_file g flatContracts) g []"

definition contractToPush :: "'cfg hre \<Rightarrow> string \<times> string \<Rightarrow> tenderlyContract" where
  "contractToPush env kv =
     \<lparr>contractName = shortName (fst kv), source = snd kv, sourcePath = fst kv,
      networks = [], compilerName = ''solc'', compilerVersion = solcVersion env\<rparr>"

definition getContracts ::
  "'cfg hre \<Rightarrow> dependencyGraph \<Rightarrow> contractByName list \<Rightarrow> tenderlyContract list" where
  "getContracts env g flatContracts =
     map (contractToPush env) (getContracts_sources g flatContracts)"

definition getContractData ::
  "'cfg hre \<Rightarrow> dependencyGraph \<Rightarrow> contractByName list \<Rightarrow> 'cfg tenderlyContractUploadRequest" where
  "getContractData env g flatContracts =
     \<lparr>contracts = getContracts env g flatContracts, config = compilerConfig env\<rparr>"

text \<open>
  \<^verbatim>\<open>a || b\<close> on values of type \<^verbatim>\<open>string | undefined\<close>: \<open>a\<close> when it is truthy (a
  string that is not empty), otherwise \<open>b\<close>.
\<close>

definition jsOr :: "string option \<Rightarrow> string option \<Rightarrow> string option" where
  "jsOr a b = (case a of None \<Rightarrow> b | Some s \<Rightarrow> if s = [] then b else Some s)"

text \<open>The expression bound to \<^verbatim>\<open>network\<close> in the loop of \<^verbatim>\<open>filterContracts\<close>.\<close>

definition targetNetwork :: "string option \<Rightarrow> contractByName \<Rightarrow> string option" where
  "targetNetwork arg contract =
     (if arg \<noteq> Some ''hardhat'' then jsOr arg (network contract) else network contract)"

text \<open>\<^verbatim>\<open>xs.findIndex(P)\<close>; \<open>None\<close> is the result \<^verbatim>\<open>-1\<close>.\<close>

fun findIndex :: "('a \<Rightarrow> bool) \<Rightarrow> 'a list \<Rightarrow> nat option" where
  "findIndex P [] = None"
| "findIndex P (x # xs) = (if P x then Some 0 else map_option Suc (findIndex P xs))"

text \<open>
  The property read \<^verbatim>\<open>NetworkMap[k]\<close>: an own entry of the table if there is
  one, otherwise a property that the table inherits, otherwise \<^verbatim>\<open>undefined\<close>
  (\<open>None\<close>). The result is given as the string it converts to as a property
  name.
\<close>

definition networkMapRead :: "'cfg hre \<Rightarrow> string \<Rightarrow> string option" where
  "networkMapRead env k =
     (case map_of (networkMap env) k of
        Some ident \<Rightarrow> Some ident
      | None \<Rightarrow> map_of (inheritedProperties env) k)"

text \<open>
  The computed property name \<^verbatim>\<open>[NetworkMap[network.toLowerCase()]]\<close>; \<^verbatim>\<open>undefined\<close>
  as a property name is the string \<^verbatim>\<open>"undefined"\<close>.
\<close>

definition networkKey :: "'cfg hre \<Rightarrow> string \<Rightarrow> string" where
  "networkKey env n =
     (case networkMapRead env (toLowerCase env n) of None \<Rightarrow> ''undefined'' | Some k \<Rightarrow> k)"

definition networkError :: "'cfg hre \<Rightarrow> string" where
  "networkError env = ''Error in '' @ pluginName env @
     '': Please provide a network via the hardhat --network argument or directly in the contract''"

text \<open>
  The loop of \<^verbatim>\<open>filterContracts\<close> over the requested contracts; \<open>None\<close> is
  \<^verbatim>\<open>return null\<close>.
\<close>

fun filterContracts_loop ::
  "'cfg hre \<Rightarrow> contractByName list \<Rightarrow> tenderlyContract list \<Rightarrow> 'cfg world
     \<Rightarrow> tenderlyContract list option \<times> 'cfg world" where
  "filterContracts_loop env [] rcs w = (Some rcs, w)"
| "filterContracts_loop env (contract # rest) rcs w =
     (case targetNetwork (networkArg env) contract of
        None \<Rightarrow> (None, consoleLog (networkError env) w)
      | Some n \<Rightarrow>
          (case findIndex (\<lambda>requestContract. contractName requestContract = name contract) rcs of
             None \<Rightarrow> filterContracts_loop env rest rcs w
           | Some i \<Rightarrow>
               filterContracts_loop env rest
                 (rcs[i := (rcs ! i)\<lparr>networks := [(networkKey env n, address contract)]\<rparr>])
                 w))"

definition filterContracts ::
  "'cfg hre \<Rightarrow> dependencyGraph \<Rightarrow> contractByName list \<Rightarrow> 'cfg world
     \<Rightarrow> 'cfg tenderlyContractUploadRequest option \<times> 'cfg world" where
  "filterContracts env g flatContracts w =
     (let requestData = getContractData env g flatContracts
      in (case filterContracts_loop env flatContracts (contracts requestData) w of
            (None, w') \<Rightarrow> (None, w')
          | (Some rcs, w') \<Rightarrow> (Some (requestData\<lparr>contracts := rcs\<rparr>), w')))"

section \<open>Transport operations\<close>

text \<open>
  \<^verbatim>\<open>TenderlyService\<close> is not among the sources: what a call of
  \<^verbatim>\<open>verifyContracts\<close> or \<^verbatim>\<open>pushContracts\<close> does is a parameter, a function from
  the arguments to either a thrown value (\<open>Inl\<close>) or a normal return. A
  JavaScript call can throw any value: \<^verbatim>\<open>undefined\<close>, \<^verbatim>\<open>null\<close>, or a value on
  which a property can be read; for the latter the model keeps what reading
  its \<^verbatim>\<open>message\<close> gives (\<open>None\<close> when it has none), which for an \<^verbatim>\<open>Error\<close> object
  is its message.
\<close>

datatype thrown = ThrownUndefined | ThrownNull | ThrownValue "string option"

datatype jsError = TypeError

text \<open>
  \<^verbatim>\<open>err.message\<close> in the \<^verbatim>\<open>catch\<close> clause: reading a property of \<^verbatim>\<open>undefined\<close> or
  \<^verbatim>\<open>null\<close> throws a \<^verbatim>\<open>TypeError\<close>.
\<close>

fun readMessage :: "thrown \<Rightarrow> jsError + string option" where
  "readMessage ThrownUndefined = Inl TypeError"
| "readMessage ThrownNull = Inl TypeError"
| "readMessage (ThrownValue m) = Inr m"

text \<open>What \<^verbatim>\<open>console.log\<close> writes for a string or \<^verbatim>\<open>undefined\<close>.\<close>

definition printed :: "string option \<Rightarrow> string" where
  "printed m = (case m of None \<Rightarrow> ''undefined'' | Some line \<Rightarrow> line)"

type_synonym 'cfg verifyService = "'cfg tenderlyContractUploadRequest \<Rightarrow> thrown + unit"

type_synonym 'cfg pushService =
  "'cfg tenderlyContractUploadRequest \<Rightarrow> string \<Rightarrow> string \<Rightarrow> thrown + unit"

text \<open>
  The methods return \<open>Inr\<close> with the effects when they return normally, and
  \<open>Inl\<close> with the exception and the effects so far when an exception reaches
  the caller.
\<close>

text \<open>\<^verbatim>\<open>contracts.reduce((accumulator, value) => accumulator.concat(value), [])\<close>\<close>

definition flatten :: "contractByName list list \<Rightarrow> contractByName list" where
  "flatten cs = foldl (\<lambda>accumulator v. accumulator @ v) [] cs"

definition verify ::
  "'cfg hre \<Rightarrow> dependencyGraph \<Rightarrow> 'cfg verifyService \<Rightarrow> contractByName list list \<Rightarrow> 'cfg world
     \<Rightarrow> (jsError \<times> 'cfg world) + 'cfg world" where
  "verify env g verifyContracts cs w =
     (case filterContracts env g (flatten cs) w of
        (None, w') \<Rightarrow> Inr (consoleLog ''Verification failed'' w')
      | (Some requestData, w') \<Rightarrow>
          (let w'' = w'\<lparr>verifyCalls := verifyCalls w' @ [requestData]\<rparr>
           in (case verifyContracts requestData of
                 Inl err \<Rightarrow>
                   (case readMessage err of
                      Inl e \<Rightarrow> Inl (e, w'')
                    | Inr m \<Rightarrow> Inr (consoleLog (printed m) w''))
               | Inr _ \<Rightarrow> Inr w'')))"

definition projectError :: "'cfg hre \<Rightarrow> string" where
  "projectError env = ''Error in '' @ pluginName env @
     '': Please provide the project field in the tenderly object in hardhat.config.js''"

definition usernameError :: "'cfg hre \<Rightarrow> string" where
  "usernameError env = ''Error in '' @ pluginName env @
     '': Please provide the username field in the tenderly object in hardhat.config.js''"

definition push ::
  "'cfg hre \<Rightarrow> dependencyGraph \<Rightarrow> 'cfg pushService \<Rightarrow> contractByName list list \<Rightarrow> 'cfg world
     \<Rightarrow> (jsError \<times> 'cfg world) + 'cfg world" where
  "push env g pushContracts cs w =
     (case filterContracts env g (flatten cs) w of
        (requestData, w') \<Rightarrow>
          (case project env of
             None \<Rightarrow> Inr (consoleLog (projectError env) w')
           | Some proj \<Rightarrow>
               (case username env of
                  None \<Rightarrow> Inr (consoleLog (usernameError env) w')
                | Some user \<Rightarrow>
                    (case requestData of
                       None \<Rightarrow> Inr (consoleLog ''Push failed'' w')
                     | Some r \<Rightarrow>
                         (let w'' = w'\<lparr>pushCalls := pushCalls w' @ [(r, proj, user)]\<rparr>
                          in (case pushContracts r proj user of
                                Inl err \<Rightarrow>
                                  (case readMessage err of
                                     Inl e \<Rightarrow> Inl (e, w'')
                                   | Inr m \<Rightarrow> Inr (consoleLog (printed m) w''))
                              | Inr _ \<Rightarrow> Inr w''))))))"

text \<open>
  The \<^verbatim>\<open>networks\<close> object that the loop of \<^verbatim>\<open>filterContracts\<close> assigns for a
  requested contract (nothing when its network is \<^verbatim>\<open>undefined\<close>, where the
  loop returns instead).
\<close>

definition assignedNetworks :: "'cfg hre \<Rightarrow> contractByName \<Rightarrow> (string \<times> string) list" where
  "assignedNetworks env contract =
     (case targetNetwork (networkArg env) contract of
        None \<Rightarrow> []
      | Some n \<Rightarrow> [(networkKey env n, address contract)])"

section \<open>Notions used in the statements\<close>

text \<open>
  The import edges of the graph (from a file of the graph to each path it
  imports), the paths of the graph that a path reaches along them, the keys of
  \<^verbatim>\<open>metadata.sources\<close>, and the property that every entry of a sources object
  holds the raw content of a file of the graph under that file's path.
\<close>

definition importEdges :: "dependencyGraph \<Rightarrow> (string \<times> string) set" where
  "importEdges g = {(p, q). \<exists>f. lookupFile g p = Some f \<and> q \<in> set (dependencies f)}"

definition closureOf :: "dependencyGraph \<Rightarrow> string \<Rightarrow> string set" where
  "closureOf g p = (importEdges g)\<^sup>* `` {p} \<inter> sourceNames g"

definition sourceKeys :: "resolveState \<Rightarrow> string set" where
  "sourceKeys st = fst ` set (sources st)"

definition contentOf :: "dependencyGraph \<Rightarrow> (string \<times> string) list \<Rightarrow> bool" where
  "contentOf g srcs \<longleftrightarrow> (\<forall>k v. map_of srcs k = Some v \<longrightarrow> (\<exists>f\<in>set g. sourceName f = k \<and> rawContent f = v))"

section \<open>A scenario\<close>

text \<open>
  The scenario of the specification: contract \<^verbatim>\<open>Token\<close>, compiled from
  \<^verbatim>\<open>contracts/Token.sol\<close> with compiler 0.8.0, deployed at \<^verbatim>\<open>0xabc\<close> on
  ropsten; the file imports a library, which a second contract imports too.
  \<open>twinGraph\<close> has two files of the short name \<^verbatim>\<open>Token\<close> and an import cycle,
  \<open>cyclicGraph\<close> is cyclic throughout. \<open>orphan\<close> declares no network, \<open>stray\<close>
  one that the table lacks, \<open>heir\<close> one that the table lacks but its prototype
  has, and \<open>tokenAgain\<close> is a second request for the name \<^verbatim>\<open>Token\<close>.
\<close>

definition tokenFile :: resolvedFile where
  "tokenFile = \<lparr>sourceName = ''contracts/Token.sol'', rawContent = ''contract Token {}'',
     dependencies = [''contracts/Lib.sol'']\<rparr>"

definition vaultFile :: resolvedFile where
  "vaultFile = \<lparr>sourceName = ''contracts/Vault.sol'', rawContent = ''contract Vault {}'',
     dependencies = [''contracts/Lib.sol'']\<rparr>"

definition libFile :: resolvedFile where
  "libFile = \<lparr>sourceName = ''contracts/Lib.sol'', rawContent = ''library Lib {}'',
     dependencies = []\<rparr>"

definition scenarioGraph :: dependencyGraph where
  "scenarioGraph = [tokenFile, libFile]"

definition sharedGraph :: dependencyGraph where
  "sharedGraph = [tokenFile, vaultFile, libFile]"

definition twinGraph :: dependencyGraph where
  "twinGraph =
     [\<lparr>sourceName = ''a/Token.sol'', rawContent = ''contract Token {}'',
       dependencies = [''lib/Lib.sol'']\<rparr>,
      \<lparr>sourceName = ''b/Token.sol'', rawContent = ''contract Token { uint x; }'',
       dependencies = []\<rparr>,
      \<lparr>sourceName = ''lib/Lib.sol'', rawContent = ''library Lib {}'',
       dependencies = [''a/Token.sol'']\<rparr>]"

definition cyclicGraph :: dependencyGraph where
  "cyclicGraph =
     [\<lparr>sourceName = ''A.sol'', rawContent = ''a'', dependencies = [''B.sol'', ''C.sol'']\<rparr>,
      \<lparr>sourceName = ''B.sol'', rawContent = ''b'', dependencies = [''C.sol'', ''A.sol'']\<rparr>,
      \<lparr>sourceName = ''C.sol'', rawContent = ''c'', dependencies = [''A.sol'']\<rparr>]"

definition scenarioEnv :: "unit hre" where
  "scenarioEnv =
     \<lparr>networkArg = None, project = Some ''proj'', username = Some ''user'',
      solcVersion = ''0.8.0'', compilerConfig = (), pluginName = ''hardhat-tenderly'',
      networkMap = [(''mainnet'', ''1''), (''ropsten'', ''3'')],
      inheritedProperties = [(''constructor'', ''function Object() { [native code] }'')],
      toLowerCase = asciiLowerCase\<rparr>"

definition token :: contractByName where
  "token = \<lparr>name = ''Token'', address = ''0xabc'', network = Some ''Ropsten''\<rparr>"

definition tokenAgain :: contractByName where
  "tokenAgain = \<lparr>name = ''Token'', address = ''0xdef'', network = Some ''mainnet''\<rparr>"

definition vault :: contractByName where
  "vault = \<lparr>name = ''Vault'', address = ''0x123'', network = Some ''mainnet''\<rparr>"

definition orphan :: contractByName where
  "orphan = \<lparr>name = ''Token'', address = ''0xdef'', network = None\<rparr>"

definition stray :: contractByName where
  "stray = \<lparr>name = ''Token'', address = ''0xabc'', network = Some ''Goerli''\<rparr>"

definition heir :: contractByName where
  "heir = \<lparr>name = ''Token'', address = ''0xabc'', network = Some ''constructor''\<rparr>"

definition emptyWorld :: "unit world" where
  "emptyWorld = \<lparr>console = [], verifyCalls = [], pushCalls = []\<rparr>"

text \<open>
  The requests expected for \<open>scenarioGraph\<close> and for \<open>twinGraph\<close> when \<^verbatim>\<open>Token\<close> is
  requested, with the \<^verbatim>\<open>networks\<close> object of the first entry left open.
\<close>

definition scenarioRequest :: "(string \<times> string) list \<Rightarrow> unit tenderlyContractUploadRequest" where
  "scenarioRequest nets =
     \<lparr>contracts =
        [\<lparr>contractName = ''Token'', source = ''contract Token {}'',
          sourcePath = ''contracts/Token.sol'', networks = nets,
          compilerName = ''solc'', compilerVersion = ''0.8.0''\<rparr>,
         \<lparr>contractName = ''Lib'', source = ''library Lib {}'',
          sourcePath = ''contracts/Lib.sol'', networks = [],
          compilerName = ''solc'', compilerVersion = ''0.8.0''\<rparr>],
      config = ()\<rparr>"

definition twinRequest :: "(string \<times> string) list \<Rightarrow> unit tenderlyContractUploadRequest" where
  "twinRequest nets =
     \<lparr>contracts =
        [\<lparr>contractName = ''Token'', source = ''contract Token {}'',
          sourcePath = ''a/Token.sol'', networks = nets,
          compilerName = ''solc'', compilerVersion = ''0.8.0''\<rparr>,
         \<lparr>contractName = ''Lib'', source = ''library Lib {}'',
          sourcePath = ''lib/Lib.sol'', networks = [],
          compilerName = ''solc'', compilerVersion = ''0.8.0''\<rparr>,
         \<lparr>contractName = ''Token'', source = ''contract Token { uint x; }'',
          sourcePath = ''b/Token.sol'', networks = [],
          compilerName = ''solc'', compilerVersion = ''0.8.0''\<rparr>],
      config = ()\<rparr>"

text \<open>Remote calls that throw the given value, or return.\<close>

definition verifyThrows :: "thrown \<Rightarrow> unit verifyService" where
  "verifyThrows v r = Inl v"


definition pushReturns :: "unit pushService" where
  "pushReturns r proj user = Inr ()"

section \<open>The request assembler on a store of objects\<close>

text \<open>
  The objects that the methods create and change, held in a store: arrays of
  references to \<^verbatim>\<open>TenderlyContract\<close> objects, the objects used as
  \<^verbatim>\<open>metadata.sources\<close>, the objects used as \<^verbatim>\<open>visited\<close>, and the
  \<^verbatim>\<open>TenderlyContract\<close> objects themselves. A reference is the position of the
  object in its list; creating an object appends it, so a reference handed out
  once keeps denoting the same object, and every reference that the methods
  read was handed out before (lemmas \<open>getContracts_store_eq\<close> and \<open>loop_store\<close>).
\<close>

record store =
  arrayCells :: "nat list list"
  sourcesCells :: "(string \<times> string) list list"
  visitedCells :: "string set list"
  contractCells :: "tenderlyContract list"

text \<open>
  The object \<^verbatim>\<open>{ contracts, config }\<close> that \<^verbatim>\<open>getContractData\<close> returns, with its
  array as a reference. The object is not changed after it is built.
\<close>

record 'cfg uploadRequestRef =
  contractsRef :: nat
  configValue :: 'cfg

text \<open>
  The literals \<^verbatim>\<open>[]\<close> (line 194), \<^verbatim>\<open>{ compiler, sources: {} }\<close> (lines 195-200, of
  which the methods use \<^verbatim>\<open>sources\<close>), \<^verbatim>\<open>{}\<close> (line 217) and the object literal of
  \<^verbatim>\<open>contractToPush\<close> (lines 227-236): each creates a new object and gives its
  reference.
\<close>

definition newArray :: "store \<Rightarrow> nat \<times> store" where
  "newArray s = (length (arrayCells s), s\<lparr>arrayCells := arrayCells s @ [[]]\<rparr>)"

definition newSources :: "store \<Rightarrow> nat \<times> store" where
  "newSources s = (length (sourcesCells s), s\<lparr>sourcesCells := sourcesCells s @ [[]]\<rparr>)"

definition newVisited :: "store \<Rightarrow> nat \<times> store" where
  "newVisited s = (length (visitedCells s), s\<lparr>visitedCells := visitedCells s @ [{}]\<rparr>)"

definition newContract :: "tenderlyContract \<Rightarrow> store \<Rightarrow> nat \<times> store" where
  "newContract c s = (length (contractCells s), s\<lparr>contractCells := contractCells s @ [c]\<rparr>)"

text \<open>
  Modelled from the spec: \<^verbatim>\<open>resolveDependencies\<close> (module \<^verbatim>\<open>./util\<close>, not among the
  sources) on the store: it reads the accumulator and the visited-set it is
  given by reference and changes these two objects in place.
\<close>

definition resolveDependencies_store :: "dependencyGraph \<Rightarrow> string \<Rightarrow> nat \<Rightarrow> nat \<Rightarrow> store \<Rightarrow> store" where
  "resolveDependencies_store g p md vis s =
     (let st = resolveDependencies g p
                 \<lparr>sources = sourcesCells s ! md, visited = visitedCells s ! vis, writes = []\<rparr>
      in s\<lparr>sourcesCells := (sourcesCells s)[md := sources st],
           visitedCells := (visitedCells s)[vis := visited st]\<rparr>)"

text \<open>
  \<^verbatim>\<open>getContracts\<close> on the store, loop by loop as above: the inner loop body,
  the callback of \<^verbatim>\<open>forEach\<close>, the body of the loop over
  \<^verbatim>\<open>Object.entries(metadata.sources)\<close> (\<^verbatim>\<open>requestContracts.push\<close>), and the method.
\<close>

definition getContracts_contract_store ::
  "dependencyGraph \<Rightarrow> resolvedFile \<Rightarrow> nat \<Rightarrow> contractByName \<Rightarrow> store \<Rightarrow> store" where
  "getContracts_contract_store g resolved md contract s =
     (if name contract \<noteq> shortName (sourceName resolved) then s
      else (let s1 = s\<lparr>sourcesCells := (sourcesCells s)
                        [md := AList.update (sourceName resolved) (rawContent resolved) (sourcesCells s ! md)]\<rparr>
            in (case newVisited s1 of
                  (vis, s2) \<Rightarrow> resolveDependencies_store g (sourceName resolved) md vis s2)))"

definition getContracts_file_store ::
  "dependencyGraph \<Rightarrow> contractByName list \<Rightarrow> nat \<Rightarrow> resolvedFile \<Rightarrow> store \<Rightarrow> store" where
  "getContracts_file_store g flatContracts md resolved s =
     fold (getContracts_contract_store g resolved md) flatContracts s"

definition getContracts_entry_store :: "'cfg hre \<Rightarrow> nat \<Rightarrow> string \<times> string \<Rightarrow> store \<Rightarrow> store" where
  "getContracts_entry_store env rc kv s =
     (case newContract (contractToPush env kv) s of
        (c, s1) \<Rightarrow> s1\<lparr>arrayCells := (arrayCells s1)[rc := arrayCells s1 ! rc @ [c]]\<rparr>)"

definition getContracts_store ::
  "'cfg hre \<Rightarrow> dependencyGraph \<Rightarrow> contractByName list \<Rightarrow> store \<Rightarrow> nat \<times> store" where
  "getContracts_store env g flatContracts s =
     (case newArray s of
        (rc, s1) \<Rightarrow>
          (case newSources s1 of
             (md, s2) \<Rightarrow>
               (let s3 = fold (getContracts_file_store g flatContracts md) g s2;
                    s4 = fold (getContracts_entry_store env rc) (sourcesCells s3 ! md) s3
                in (rc, s4))))"

definition getContractData_store ::
  "'cfg hre \<Rightarrow> dependencyGraph \<Rightarrow> contractByName list \<Rightarrow> store \<Rightarrow> 'cfg uploadRequestRef \<times> store" where
  "getContractData_store env g flatContracts s =
     (case getContracts_store env g flatContracts s of
        (rc, s') \<Rightarrow> (\<lparr>contractsRef = rc, configValue = compilerConfig env\<rparr>, s'))"

text \<open>
  The loop of \<^verbatim>\<open>filterContracts\<close> on the store: \<^verbatim>\<open>findIndex\<close> reads the objects
  that the array refers to, and the assignment changes the object found.
  The flag is false for \<^verbatim>\<open>return null\<close>.
\<close>

fun filterContracts_loop_store ::
  "'cfg hre \<Rightarrow> contractByName list \<Rightarrow> nat \<Rightarrow> store \<Rightarrow> 'cfg world \<Rightarrow> bool \<times> store \<times> 'cfg world" where
  "filterContracts_loop_store env [] rc s w = (True, s, w)"
| "filterContracts_loop_store env (contract # rest) rc s w =
     (case targetNetwork (networkArg env) contract of
        None \<Rightarrow> (False, s, consoleLog (networkError env) w)
      | Some n \<Rightarrow>
          (case findIndex (\<lambda>a. contractName (contractCells s ! a) = name contract) (arrayCells s ! rc) of
             None \<Rightarrow> filterContracts_loop_store env rest rc s w
           | Some i \<Rightarrow>
               filterContracts_loop_store env rest rc
                 (s\<lparr>contractCells := (contractCells s)
                      [arrayCells s ! rc ! i :=
                         (contractCells s ! (arrayCells s ! rc ! i))
                           \<lparr>networks := [(networkKey env n, address contract)]\<rparr>]\<rparr>)
                 w))"

definition filterContracts_store ::
  "'cfg hre \<Rightarrow> dependencyGraph \<Rightarrow> contractByName list \<Rightarrow> store \<Rightarrow> 'cfg world
     \<Rightarrow> 'cfg uploadRequestRef option \<times> store \<times> 'cfg world" where
  "filterContracts_store env g flatContracts s w =
     (case getContractData_store env g flatContracts s of
        (requestData, s1) \<Rightarrow>
          (case filterContracts_loop_store env flatContracts (contractsRef requestData) s1 w of
             (True, s2, w') \<Rightarrow> (Some requestData, s2, w')
           | (False, s2, w') \<Rightarrow> (None, s2, w')))"

text \<open>
  The request as a value: the objects its array refers to, read from a store.
\<close>

definition readRequest :: "store \<Rightarrow> 'cfg uploadRequestRef \<Rightarrow> 'cfg tenderlyContractUploadRequest" where
  "readRequest s requestData =
     \<lparr>contracts = map (\<lambda>a. contractCells s ! a) (arrayCells s ! contractsRef requestData),
      config = configValue requestData\<rparr>"

text \<open>The store of a run in which nothing has been created yet.\<close>

definition emptyStore :: store where
  "emptyStore = \<lparr>arrayCells = [], sourcesCells = [], visitedCells = [], contractCells = []\<rparr>"

text \<open>
  Two calls in a row for the scenario: the store that the first call leaves
  when it starts from the empty store, and the store that the second call
  leaves when it starts from that.
\<close>

definition afterFirst :: store where
  "afterFirst =
     \<lparr>arrayCells = [[0, 1]],
      sourcesCells =
        [[(''contracts/Token.sol'', ''contract Token {}''),
          (''contracts/Lib.sol'', ''library Lib {}'')]],
      visitedCells = [{''contracts/Lib.sol'', ''contracts/Token.sol''}],
      contractCells = contracts (scenarioRequest [(''3'', ''0xabc'')])\<rparr>"

definition afterSecond :: store where
  "afterSecond =
     \<lparr>arrayCells = [[0, 1], [2, 3]],
      sourcesCells =
        [[(''contracts/Token.sol'', ''contract Token {}''),
          (''contracts/Lib.sol'', ''library Lib {}'')],
         [(''contracts/Token.sol'', ''contract Token {}''),
          (''contracts/Lib.sol'', ''library Lib {}'')]],
      visitedCells =
        [{''contracts/Lib.sol'', ''contracts/Token.sol''},
         {''contracts/Lib.sol'', ''contracts/Token.sol''}],
      contractCells =
        contracts (scenarioRequest [(''3'', ''0xabc'')]) @
        contracts (scenarioRequest [(''3'', ''0xabc'')])\<rparr>"

section \<open>Basic facts\<close>

lemma split_not_Nil: "split sep s \<noteq> []"
  by (induction s) (auto split: list.splits)

lemma fold_flatten: "foldl (\<lambda>a v. a @ v) acc cs = acc @ concat cs"
  by (induction cs arbitrary: acc) auto

lemma flatten_concat: "flatten cs = concat cs"
  by (simp add: flatten_def fold_flatten)

lemma targetNetwork_None_iff:
  "targetNetwork arg c = None \<longleftrightarrow>
     network c = None \<and> (arg = None \<or> arg = Some [] \<or> arg = Some ''hardhat'')"
  by (auto simp: targetNetwork_def jsOr_def split: option.splits if_splits)

lemma loop_world:
  "snd (filterContracts_loop env cs rcs w) =
     (if \<exists>c\<in>set cs. targetNetwork (networkArg env) c = None
      then consoleLog (networkError env) w else w)"
  by (induction cs arbitrary: rcs) (auto split: option.splits)

lemma loop_None_iff:
  "fst (filterContracts_loop env cs rcs w) = None \<longleftrightarrow>
     (\<exists>c\<in>set cs. targetNetwork (networkArg env) c = None)"
  by (induction cs arbitrary: rcs) (auto split: option.splits)

lemma loop_fst_world:
  "fst (filterContracts_loop env cs rcs w) = fst (filterContracts_loop env cs rcs w2)"
  by (induction cs arbitrary: rcs) (auto split: option.splits)

lemma filterContracts_loop_form:
  "filterContracts env g cs w =
     (map_option (\<lambda>rcs. (getContractData env g cs)\<lparr>contracts := rcs\<rparr>)
        (fst (filterContracts_loop env cs (getContracts env g cs) w)),
      snd (filterContracts_loop env cs (getContracts env g cs) w))"
  by (simp add: filterContracts_def getContractData_def Let_def split: prod.splits option.splits)

lemma filterContracts_world:
  "snd (filterContracts env g cs w) =
     (if \<exists>c\<in>set cs. targetNetwork (networkArg env) c = None
      then consoleLog (networkError env) w else w)"
  by (simp only: filterContracts_loop_form snd_conv loop_world)

lemma filterContracts_None_iff:
  "fst (filterContracts env g cs w) = None \<longleftrightarrow>
     (\<exists>c\<in>set cs. targetNetwork (networkArg env) c = None)"
  by (simp only: filterContracts_loop_form fst_conv map_option_is_None loop_None_iff)

lemma filterContracts_fst_world:
  "fst (filterContracts env g cs w) = fst (filterContracts env g cs w2)"
  by (simp only: filterContracts_loop_form fst_conv loop_fst_world [of env cs _ w w2])

lemma findIndex_None_iff: "findIndex P xs = None \<longleftrightarrow> (\<forall>x\<in>set xs. \<not> P x)"
  by (induction xs) auto

lemma findIndex_Some_iff:
  "findIndex P xs = Some i \<longleftrightarrow> i < length xs \<and> P (xs ! i) \<and> (\<forall>j<i. \<not> P (xs ! j))"
proof (induction xs arbitrary: i)
  case Nil
  then show ?case by simp
next
  case (Cons x xs)
  show ?case
  proof (cases "P x")
    case True
    then show ?thesis by (cases i) auto
  next
    case False
    show ?thesis
    proof (cases i)
      case 0
      with False show ?thesis by simp
    next
      case (Suc k)
      with False Cons.IH [of k] show ?thesis
        by (auto simp: less_Suc_eq_0_disj)
    qed
  qed
qed

lemma findIndex_map: "findIndex (\<lambda>x. P (f x)) xs = findIndex P (map f xs)"
  by (induction xs) auto

lemma findIndex_contractName_cong:
  "map contractName xs = map contractName ys \<Longrightarrow>
     findIndex (\<lambda>e. contractName e = n) xs = findIndex (\<lambda>e. contractName e = n) ys"
  using findIndex_map [of "\<lambda>m. m = n" contractName xs] findIndex_map [of "\<lambda>m. m = n" contractName ys]
  by simp

lemma loop_effect:
  "filterContracts_loop env cs rcs w = (Some rcs', w') \<Longrightarrow>
     length rcs' = length rcs \<and>
     (\<forall>j<length rcs. rcs' ! j = (rcs ! j)\<lparr>networks :=
         (if findIndex (\<lambda>e. contractName e = contractName (rcs ! j)) rcs = Some j
             \<and> (\<exists>c\<in>set cs. name c = contractName (rcs ! j))
          then assignedNetworks env (last (filter (\<lambda>c. name c = contractName (rcs ! j)) cs))
          else networks (rcs ! j))\<rparr>)"
proof (induction cs arbitrary: rcs)
  case Nil
  then show ?case by simp
next
  case (Cons c rest)
  from Cons.prems obtain n where n: "targetNetwork (networkArg env) c = Some n"
    by (cases "targetNetwork (networkArg env) c") auto
  then have an: "assignedNetworks env c = [(networkKey env n, address c)]"
    by (simp add: assignedNetworks_def)
  show ?case
  proof (cases "findIndex (\<lambda>e. contractName e = name c) rcs")
    case None
    then have no: "\<forall>e\<in>set rcs. contractName e \<noteq> name c"
      by (simp add: findIndex_None_iff)
    from Cons.prems n None have "filterContracts_loop env rest rcs w = (Some rcs', w')"
      by simp
    from Cons.IH [OF this] no show ?thesis
      by (auto simp: nth_mem)
  next
    case (Some i)
    define rcs2 where "rcs2 = rcs[i := (rcs ! i)\<lparr>networks := [(networkKey env n, address c)]\<rparr>]"
    from Some have i: "i < length rcs" "contractName (rcs ! i) = name c"
      by (simp_all add: findIndex_Some_iff)
    have names: "map contractName rcs2 = map contractName rcs"
      using i by (simp add: rcs2_def map_update list_update_same_conv)
    have fi: "findIndex (\<lambda>e. contractName e = m) rcs2 = findIndex (\<lambda>e. contractName e = m) rcs" for m
      by (rule findIndex_contractName_cong [OF names])
    have len: "length rcs2 = length rcs" by (simp add: rcs2_def)
    have cn: "contractName (rcs2 ! j) = contractName (rcs ! j)" if "j < length rcs" for j
      using that i by (cases "j = i") (simp_all add: rcs2_def)
    have upd: "(rcs2 ! j)\<lparr>networks := X\<rparr> = (rcs ! j)\<lparr>networks := X\<rparr>" if "j < length rcs" for j X
      using that by (cases "j = i") (simp_all add: rcs2_def)
    have nw: "networks (rcs2 ! j) = (if j = i then assignedNetworks env c else networks (rcs ! j))"
      if "j < length rcs" for j
      using that by (simp add: rcs2_def an)
    from Cons.prems n Some have "filterContracts_loop env rest rcs2 w = (Some rcs', w')"
      by (simp add: rcs2_def)
    from Cons.IH [OF this] have L2: "length rcs' = length rcs2"
      and raw: "\<forall>j<length rcs2. rcs' ! j = (rcs2 ! j)\<lparr>networks :=
         (if findIndex (\<lambda>e. contractName e = contractName (rcs2 ! j)) rcs2 = Some j
             \<and> (\<exists>c\<in>set rest. name c = contractName (rcs2 ! j))
          then assignedNetworks env (last (filter (\<lambda>c. name c = contractName (rcs2 ! j)) rest))
          else networks (rcs2 ! j))\<rparr>"
      by blast+
    from L2 len have L: "length rcs' = length rcs" by simp
    have IH: "rcs' ! j = (rcs ! j)\<lparr>networks :=
         (if findIndex (\<lambda>e. contractName e = contractName (rcs ! j)) rcs = Some j
             \<and> (\<exists>c\<in>set rest. name c = contractName (rcs ! j))
          then assignedNetworks env (last (filter (\<lambda>c. name c = contractName (rcs ! j)) rest))
          else if j = i then assignedNetworks env c else networks (rcs ! j))\<rparr>"
      if j: "j < length rcs" for j
    proof -
      from j len raw have "rcs' ! j = (rcs2 ! j)\<lparr>networks :=
         (if findIndex (\<lambda>e. contractName e = contractName (rcs2 ! j)) rcs2 = Some j
             \<and> (\<exists>c\<in>set rest. name c = contractName (rcs2 ! j))
          then assignedNetworks env (last (filter (\<lambda>c. name c = contractName (rcs2 ! j)) rest))
          else networks (rcs2 ! j))\<rparr>"
        by simp
      then show ?thesis
        by (simp only: cn [OF j] fi upd [OF j] nw [OF j])
    qed
    have "rcs' ! j = (rcs ! j)\<lparr>networks :=
         (if findIndex (\<lambda>e. contractName e = contractName (rcs ! j)) rcs = Some j
             \<and> (\<exists>c\<in>set (c # rest). name c = contractName (rcs ! j))
          then assignedNetworks env (last (filter (\<lambda>c. name c = contractName (rcs ! j)) (c # rest)))
          else networks (rcs ! j))\<rparr>" if j: "j < length rcs" for j
    proof (cases "name c = contractName (rcs ! j)")
      case True
      with Some have f: "findIndex (\<lambda>e. contractName e = contractName (rcs ! j)) rcs = Some i"
        by simp
      show ?thesis
      proof (cases "\<exists>c\<in>set rest. name c = contractName (rcs ! j)")
        case True
        then have "filter (\<lambda>c. name c = contractName (rcs ! j)) rest \<noteq> []"
          by (simp add: filter_empty_conv)
        with IH [OF j] f True show ?thesis by auto
      next
        case False
        then have "filter (\<lambda>c. name c = contractName (rcs ! j)) rest = []"
          by (simp add: filter_empty_conv)
        with IH [OF j] f False \<open>name c = contractName (rcs ! j)\<close> show ?thesis by auto
      qed
    next
      case False
      with i have "j \<noteq> i" by auto
      with IH [OF j] False show ?thesis by auto
    qed
    with L show ?thesis by simp
  qed
qed

subsection \<open>The dependency resolver\<close>

lemma lookupFile_Some: "lookupFile g p = Some f \<Longrightarrow> f \<in> set g \<and> sourceName f = p"
  by (auto simp: lookupFile_def find_Some_iff)

lemma lookupFile_None: "lookupFile g p = None \<longleftrightarrow> p \<notin> sourceNames g"
  by (auto simp: lookupFile_def sourceNames_def find_None_iff)

lemma lookupFile_distinct:
  "distinct (map sourceName g) \<Longrightarrow> f \<in> set g \<Longrightarrow> lookupFile g (sourceName f) = Some f"
  by (induction g) (auto simp: lookupFile_def)

lemma sourceKeys_mark [simp]: "sourceKeys (markVisited p st) = sourceKeys st"
  by (simp add: sourceKeys_def markVisited_def)

lemma sourceKeys_record [simp]: "sourceKeys (recordSource f st) = insert (sourceName f) (sourceKeys st)"
  by (simp add: sourceKeys_def recordSource_def dom_update)

lemma visited_mark [simp]: "visited (markVisited p st) = insert p (visited st)"
  by (simp add: markVisited_def)

lemma visited_record [simp]: "visited (recordSource f st) = visited st"
  by (simp add: recordSource_def)

lemma writes_mark [simp]: "writes (markVisited p st) = writes st"
  by (simp add: markVisited_def)

lemma writes_record [simp]: "writes (recordSource f st) = writes st @ [sourceName f]"
  by (simp add: recordSource_def)

lemma pending_visited: "visited st \<union> set ps \<subseteq> visited (resolvePending g ps st)"
  by (induction g ps st rule: resolvePending.induct) (auto split: option.splits)

lemma pending_writes:
  "\<exists>new. writes (resolvePending g ps st) = writes st @ new \<and> distinct new
      \<and> set new \<inter> visited st = {} \<and> set new \<subseteq> sourceNames g
      \<and> set new \<subseteq> (importEdges g)\<^sup>* `` set ps
      \<and> sourceKeys (resolvePending g ps st) = sourceKeys st \<union> set new"
proof (induction g ps st rule: resolvePending.induct)
  case (1 g st)
  show ?case by simp
next
  case (2 g p ps st)
  show ?case
  proof (cases "p \<in> visited st")
    case True
    with 2(1) obtain new where "writes (resolvePending g ps st) = writes st @ new" "distinct new"
      "set new \<inter> visited st = {}" "set new \<subseteq> sourceNames g"
      "set new \<subseteq> (importEdges g)\<^sup>* `` set ps"
      "sourceKeys (resolvePending g ps st) = sourceKeys st \<union> set new"
      by blast
    with True show ?thesis
      by (intro exI [of _ new]) auto
  next
    case False
    show ?thesis
    proof (cases "lookupFile g p")
      case None
      with False 2(2) obtain new where
        "writes (resolvePending g ps (markVisited p st)) = writes st @ new" "distinct new"
        "set new \<inter> insert p (visited st) = {}" "set new \<subseteq> sourceNames g"
        "set new \<subseteq> (importEdges g)\<^sup>* `` set ps"
        "sourceKeys (resolvePending g ps (markVisited p st)) = sourceKeys st \<union> set new"
        by force
      with False None show ?thesis
        by (intro exI [of _ new]) auto
    next
      case (Some f)
      then have f: "sourceName f = p" "p \<in> sourceNames g"
        by (auto dest: lookupFile_Some simp: sourceNames_def)
      from False Some 2(3) [of f] obtain new where new:
        "writes (resolvePending g (dependencies f @ ps) (recordSource f (markVisited p st)))
           = (writes st @ [p]) @ new" "distinct new"
        "set new \<inter> insert p (visited st) = {}" "set new \<subseteq> sourceNames g"
        "set new \<subseteq> (importEdges g)\<^sup>* `` set (dependencies f @ ps)"
        "sourceKeys (resolvePending g (dependencies f @ ps) (recordSource f (markVisited p st)))
           = insert p (sourceKeys st) \<union> set new"
        by (force simp: f)
      have "set (dependencies f) \<subseteq> importEdges g `` {p}"
        using Some by (auto simp: importEdges_def)
      then have "(importEdges g)\<^sup>* `` set (dependencies f @ ps) \<subseteq> (importEdges g)\<^sup>* `` set (p # ps)"
        by (auto intro: converse_rtrancl_into_rtrancl)
      with new(5) have reach: "set (p # new) \<subseteq> (importEdges g)\<^sup>* `` set (p # ps)"
        by auto
      have step: "resolvePending g (p # ps) st =
          resolvePending g (dependencies f @ ps) (recordSource f (markVisited p st))"
        using False Some by simp
      have "writes (resolvePending g (p # ps) st) = writes st @ p # new"
        unfolding step using new(1) by simp
      moreover have "distinct (p # new)"
        using new(2,3) by auto
      moreover have "set (p # new) \<inter> visited st = {}"
        using new(3) False by auto
      moreover have "set (p # new) \<subseteq> sourceNames g"
        using new(4) f(2) by auto
      moreover have "sourceKeys (resolvePending g (p # ps) st) = sourceKeys st \<union> set (p # new)"
        unfolding step using new(6) by auto
      ultimately show ?thesis
        using reach by blast
    qed
  qed
qed

lemma pending_closed:
  "(\<forall>q\<in>visited st. \<forall>f. lookupFile g q = Some f \<longrightarrow> set (dependencies f) \<subseteq> visited st \<union> set ps)
   \<Longrightarrow> (\<forall>q\<in>visited (resolvePending g ps st). \<forall>f. lookupFile g q = Some f \<longrightarrow>
          set (dependencies f) \<subseteq> visited (resolvePending g ps st))"
proof (induction g ps st rule: resolvePending.induct)
  case (1 g st)
  then show ?case by simp
next
  case (2 g p ps st)
  show ?case
  proof (cases "p \<in> visited st")
    case True
    with 2(4) have "\<forall>q\<in>visited st. \<forall>f. lookupFile g q = Some f \<longrightarrow>
        set (dependencies f) \<subseteq> visited st \<union> set ps"
      by auto
    with True 2(1) show ?thesis by simp
  next
    case False
    show ?thesis
    proof (cases "lookupFile g p")
      case None
      with 2(4) have "\<forall>q\<in>visited (markVisited p st). \<forall>f. lookupFile g q = Some f \<longrightarrow>
          set (dependencies f) \<subseteq> visited (markVisited p st) \<union> set ps"
        by auto
      with False None 2(2) show ?thesis by simp
    next
      case (Some f)
      with 2(4) have "\<forall>q\<in>visited (recordSource f (markVisited p st)). \<forall>f'. lookupFile g q = Some f' \<longrightarrow>
          set (dependencies f') \<subseteq> visited (recordSource f (markVisited p st)) \<union> set (dependencies f @ ps)"
        by auto
      with False Some 2(3) [of f] show ?thesis by simp
    qed
  qed
qed

lemma pending_recorded:
  "visited st \<inter> sourceNames g \<subseteq> sourceKeys st \<Longrightarrow>
     visited (resolvePending g ps st) \<inter> sourceNames g \<subseteq> sourceKeys (resolvePending g ps st)"
proof (induction g ps st rule: resolvePending.induct)
  case (1 g st)
  then show ?case by simp
next
  case (2 g p ps st)
  show ?case
  proof (cases "p \<in> visited st")
    case True
    with 2 show ?thesis by simp
  next
    case False
    show ?thesis
    proof (cases "lookupFile g p")
      case None
      then have "p \<notin> sourceNames g" by (simp add: lookupFile_None)
      with 2(4) have "visited (markVisited p st) \<inter> sourceNames g \<subseteq> sourceKeys (markVisited p st)"
        by auto
      with False None 2(2) show ?thesis by simp
    next
      case (Some f)
      then have "sourceName f = p" by (auto dest: lookupFile_Some)
      with 2(4) have "visited (recordSource f (markVisited p st)) \<inter> sourceNames g
          \<subseteq> sourceKeys (recordSource f (markVisited p st))"
        by auto
      with False Some 2(3) [of f] show ?thesis by simp
    qed
  qed
qed

lemma pending_distinct_keys:
  "distinct (map fst (sources st)) \<Longrightarrow> distinct (map fst (sources (resolvePending g ps st)))"
  by (induction g ps st rule: resolvePending.induct)
    (auto split: option.splits simp: markVisited_def recordSource_def distinct_update)

lemma pending_contents:
  "contentOf g (sources st) \<Longrightarrow> contentOf g (sources (resolvePending g ps st))"
proof (induction g ps st rule: resolvePending.induct)
  case (1 g st)
  then show ?case by simp
next
  case (2 g p ps st)
  show ?case
  proof (cases "p \<in> visited st")
    case True
    with 2 show ?thesis by simp
  next
    case False
    show ?thesis
    proof (cases "lookupFile g p")
      case None
      from 2(4) have "contentOf g (sources (markVisited p st))"
        by (simp add: markVisited_def)
      with False None 2(2) show ?thesis by simp
    next
      case (Some f)
      then have "f \<in> set g" by (auto dest: lookupFile_Some)
      with 2(4) have "contentOf g (sources (recordSource f (markVisited p st)))"
        by (auto simp: contentOf_def recordSource_def markVisited_def update_conv')
      with False Some 2(3) [of f] show ?thesis by simp
    qed
  qed
qed


lemma pending_append:
  "resolvePending g (xs @ ys) st = resolvePending g ys (resolvePending g xs st)"
  by (induction g xs st rule: resolvePending.induct) (auto split: option.splits)

lemma pending_fold: "resolvePending g ps st = fold (resolveDependencies g) ps st"
proof (induction ps arbitrary: st)
  case Nil
  show ?case by simp
next
  case (Cons p ps)
  have "resolvePending g ([p] @ ps) st = resolvePending g ps (resolvePending g [p] st)"
    by (rule pending_append)
  with Cons show ?case by (simp add: resolveDependencies_def)
qed

lemma resolveDependencies_rec:
  "resolveDependencies g p st =
     (if p \<in> visited st then st
      else (case lookupFile g p of
              None \<Rightarrow> markVisited p st
            | Some f \<Rightarrow> fold (resolveDependencies g) (dependencies f) (recordSource f (markVisited p st))))"
  by (simp add: resolveDependencies_def pending_fold [symmetric] split: option.splits)

lemma closed_reach:
  assumes closed: "\<forall>q\<in>V. \<forall>f. lookupFile g q = Some f \<longrightarrow> set (dependencies f) \<subseteq> V"
    and "(p, q) \<in> (importEdges g)\<^sup>*" and "p \<in> V"
  shows "q \<in> V"
  using assms(2,3)
proof (induction rule: rtrancl_induct)
  case base
  then show ?case .
next
  case (step y z)
  then have "y \<in> V" by simp
  moreover from step(2) obtain f where "lookupFile g y = Some f" "z \<in> set (dependencies f)"
    by (auto simp: importEdges_def)
  ultimately show ?case using closed by blast
qed

lemma resolve_fresh_keys:
  "fst ` set (sources (resolveDependencies g p \<lparr>sources = srcs, visited = {}, writes = []\<rparr>)) =
     fst ` set srcs \<union> ((importEdges g)\<^sup>* `` {p} \<inter> sourceNames g)"
proof -
  let ?st = "\<lparr>sources = srcs, visited = {}, writes = []\<rparr>"
  let ?res = "resolvePending g [p] ?st"
  from pending_writes [of g "[p]" ?st] obtain new where new:
    "set new \<subseteq> sourceNames g" "set new \<subseteq> (importEdges g)\<^sup>* `` {p}"
    "sourceKeys ?res = sourceKeys ?st \<union> set new"
    by auto
  have closed: "\<forall>q\<in>visited ?res. \<forall>f. lookupFile g q = Some f \<longrightarrow> set (dependencies f) \<subseteq> visited ?res"
    by (rule pending_closed) simp
  have "p \<in> visited ?res"
    using pending_visited [of ?st "[p]" g] by simp
  with closed have "(importEdges g)\<^sup>* `` {p} \<subseteq> visited ?res"
    by (auto intro: closed_reach)
  moreover have "visited ?res \<inter> sourceNames g \<subseteq> sourceKeys ?res"
    by (rule pending_recorded) simp
  ultimately have "(importEdges g)\<^sup>* `` {p} \<inter> sourceNames g \<subseteq> sourceKeys ?res"
    by blast
  with new have "sourceKeys ?res = sourceKeys ?st \<union> ((importEdges g)\<^sup>* `` {p} \<inter> sourceNames g)"
    by blast
  then show ?thesis
    by (simp add: resolveDependencies_def sourceKeys_def)
qed

lemma contract_keys:
  "f \<in> set g \<Longrightarrow> fst ` set (getContracts_contract g f c srcs) =
     fst ` set srcs \<union> (if name c = shortName (sourceName f) then closureOf g (sourceName f) else {})"
  by (auto simp: getContracts_contract_def resolve_fresh_keys dom_update closureOf_def sourceNames_def)

lemma resolve_distinct_keys:
  "distinct (map fst (sources st)) \<Longrightarrow> distinct (map fst (sources (resolveDependencies g p st)))"
  unfolding resolveDependencies_def by (rule pending_distinct_keys)

lemma resolve_contents:
  "contentOf g (sources st) \<Longrightarrow> contentOf g (sources (resolveDependencies g p st))"
  unfolding resolveDependencies_def by (rule pending_contents)

lemma contract_distinct:
  "distinct (map fst srcs) \<Longrightarrow> distinct (map fst (getContracts_contract g f c srcs))"
  by (simp add: getContracts_contract_def resolve_distinct_keys distinct_update)

lemma contract_contents:
  assumes "f \<in> set g" and "contentOf g srcs"
  shows "contentOf g (getContracts_contract g f c srcs)"
proof -
  from assms have "contentOf g (AList.update (sourceName f) (rawContent f) srcs)"
    by (auto simp: contentOf_def update_conv')
  with assms(2) show ?thesis
    by (simp add: getContracts_contract_def resolve_contents)
qed

lemma file_keys:
  "f \<in> set g \<Longrightarrow> fst ` set (getContracts_file g cs f srcs) =
     fst ` set srcs \<union> (if \<exists>c\<in>set cs. name c = shortName (sourceName f)
                        then closureOf g (sourceName f) else {})"
  unfolding getContracts_file_def
  by (induction cs arbitrary: srcs) (auto simp: contract_keys)

lemma file_distinct:
  "distinct (map fst srcs) \<Longrightarrow> distinct (map fst (getContracts_file g cs f srcs))"
  unfolding getContracts_file_def
  by (induction cs arbitrary: srcs) (auto simp: contract_distinct)

lemma file_contents:
  "f \<in> set g \<Longrightarrow> contentOf g srcs \<Longrightarrow> contentOf g (getContracts_file g cs f srcs)"
  unfolding getContracts_file_def
  by (induction cs arbitrary: srcs) (auto simp: contract_contents)

lemma files_keys:
  "set fs \<subseteq> set g \<Longrightarrow> fst ` set (fold (getContracts_file g cs) fs srcs) =
     fst ` set srcs \<union> (\<Union>f\<in>{f \<in> set fs. \<exists>c\<in>set cs. name c = shortName (sourceName f)}.
                          closureOf g (sourceName f))"
  by (induction fs arbitrary: srcs) (auto simp: file_keys)

lemma files_distinct:
  "distinct (map fst srcs) \<Longrightarrow> distinct (map fst (fold (getContracts_file g cs) fs srcs))"
  by (induction fs arbitrary: srcs) (auto simp: file_distinct)

lemma files_contents:
  "set fs \<subseteq> set g \<Longrightarrow> contentOf g srcs \<Longrightarrow> contentOf g (fold (getContracts_file g cs) fs srcs)"
  by (induction fs arbitrary: srcs) (auto simp: file_contents)

lemma sources_keys:
  "fst ` set (getContracts_sources g cs) =
     (\<Union>f\<in>{f \<in> set g. \<exists>c\<in>set cs. name c = shortName (sourceName f)}. closureOf g (sourceName f))"
  by (simp add: getContracts_sources_def files_keys)

lemma sources_distinct: "distinct (map fst (getContracts_sources g cs))"
  by (simp add: getContracts_sources_def files_distinct)

lemma sources_contents: "contentOf g (getContracts_sources g cs)"
  unfolding getContracts_sources_def
  by (rule files_contents) (simp_all add: contentOf_def)

lemma networks_getContracts:
  "j < length (getContracts env g cs) \<Longrightarrow> networks (getContracts env g cs ! j) = []"
  by (simp add: getContracts_def contractToPush_def)

lemma filterContracts_Some:
  assumes "filterContracts env g cs w = (Some r, w')"
  shows "length (contracts r) = length (getContracts env g cs)"
    and "config r = compilerConfig env"
    and "\<forall>c\<in>set cs. targetNetwork (networkArg env) c \<noteq> None"
    and "\<And>j. j < length (contracts r) \<Longrightarrow>
           contracts r ! j = (getContracts env g cs ! j)\<lparr>networks :=
             (if findIndex (\<lambda>e. contractName e = contractName (getContracts env g cs ! j))
                   (getContracts env g cs) = Some j
                 \<and> (\<exists>c\<in>set cs. name c = contractName (getContracts env g cs ! j))
              then assignedNetworks env
                     (last (filter (\<lambda>c. name c = contractName (getContracts env g cs ! j)) cs))
              else [])\<rparr>"
proof -
  from assms obtain rcs where loop: "filterContracts_loop env cs (getContracts env g cs) w = (Some rcs, w')"
    and r: "r = (getContractData env g cs)\<lparr>contracts := rcs\<rparr>"
    by (auto simp: filterContracts_def Let_def getContractData_def split: prod.splits option.splits)
  from r have c: "contracts r = rcs" by simp
  from r show "config r = compilerConfig env" by (simp add: getContractData_def)
  from loop_effect [OF loop] show "length (contracts r) = length (getContracts env g cs)"
    by (simp add: c)
  from assms have "fst (filterContracts env g cs w) \<noteq> None" by simp
  then show "\<forall>c\<in>set cs. targetNetwork (networkArg env) c \<noteq> None"
    by (simp add: filterContracts_None_iff)
  fix j assume "j < length (contracts r)"
  with loop_effect [OF loop] have j: "j < length (getContracts env g cs)" by (simp add: c)
  with loop_effect [OF loop] have "rcs ! j = (getContracts env g cs ! j)\<lparr>networks :=
             (if findIndex (\<lambda>e. contractName e = contractName (getContracts env g cs ! j))
                   (getContracts env g cs) = Some j
                 \<and> (\<exists>c\<in>set cs. name c = contractName (getContracts env g cs ! j))
              then assignedNetworks env
                     (last (filter (\<lambda>c. name c = contractName (getContracts env g cs ! j)) cs))
              else networks (getContracts env g cs ! j))\<rparr>"
    by blast
  then show "contracts r ! j = (getContracts env g cs ! j)\<lparr>networks :=
             (if findIndex (\<lambda>e. contractName e = contractName (getContracts env g cs ! j))
                   (getContracts env g cs) = Some j
                 \<and> (\<exists>c\<in>set cs. name c = contractName (getContracts env g cs ! j))
              then assignedNetworks env
                     (last (filter (\<lambda>c. name c = contractName (getContracts env g cs ! j)) cs))
              else [])\<rparr>"
    by (simp only: c networks_getContracts [OF j])
qed

lemma filterContracts_names:
  assumes "filterContracts env g cs w = (Some r, w')"
  shows "map contractName (contracts r) = map contractName (getContracts env g cs)"
    and "map sourcePath (contracts r) = map sourcePath (getContracts env g cs)"
    and "map source (contracts r) = map source (getContracts env g cs)"
  using filterContracts_Some(1,4) [OF assms]
  by (auto intro!: nth_equalityI)

lemma getContracts_paths: "map sourcePath (getContracts env g cs) = map fst (getContracts_sources g cs)"
  by (simp add: getContracts_def contractToPush_def comp_def)

lemma closureOf_self: "f \<in> set g \<Longrightarrow> sourceName f \<in> closureOf g (sourceName f)"
  by (auto simp: closureOf_def sourceNames_def)

lemma filterContracts_networks:
  assumes "filterContracts env g cs w = (Some r, w')" and j: "j < length (contracts r)"
  shows "networks (contracts r ! j) =
      (if findIndex (\<lambda>e. contractName e = contractName (contracts r ! j)) (contracts r) = Some j
          \<and> (\<exists>c\<in>set cs. name c = contractName (contracts r ! j))
       then assignedNetworks env (last (filter (\<lambda>c. name c = contractName (contracts r ! j)) cs))
       else [])"
proof -
  let ?gc = "getContracts env g cs"
  note S = filterContracts_Some [OF assms(1)]
  note N = filterContracts_names(1) [OF assms(1)]
  have fi: "findIndex (\<lambda>e. contractName e = n) (contracts r) = findIndex (\<lambda>e. contractName e = n) ?gc" for n
    by (rule findIndex_contractName_cong [OF N])
  have cn: "contractName (?gc ! j) = contractName (contracts r ! j)"
    using j N S(1) by (metis nth_map)
  have "networks (contracts r ! j) = networks ((?gc ! j)\<lparr>networks :=
           (if findIndex (\<lambda>e. contractName e = contractName (?gc ! j)) ?gc = Some j
               \<and> (\<exists>c\<in>set cs. name c = contractName (?gc ! j))
            then assignedNetworks env (last (filter (\<lambda>c. name c = contractName (?gc ! j)) cs))
            else [])\<rparr>)"
    using S(4) [OF j] by simp
  moreover have "networks (x\<lparr>networks := X\<rparr>) = X" for x :: tenderlyContract and X
    by simp
  ultimately show ?thesis
    by (simp only: cn fi [symmetric])
qed

lemma distinct_filter_key:
  "distinct (map fst al) \<Longrightarrow> map_of al k = Some v \<Longrightarrow> filter (\<lambda>kv. fst kv = k) al = [(k, v)]"
proof (induction al)
  case Nil
  then show ?case by simp
next
  case (Cons a al)
  show ?case
  proof (cases "fst a = k")
    case True
    from Cons.prems(1) have "fst a \<notin> fst ` set al" by simp
    with True have "\<forall>kv\<in>set al. fst kv \<noteq> k" by (metis imageI)
    then have "filter (\<lambda>kv. fst kv = k) al = []" by (simp add: filter_empty_conv)
    with True Cons.prems show ?thesis by (cases a) auto
  next
    case False
    with Cons show ?thesis by auto
  qed
qed

lemma contentOf_unique:
  assumes "contentOf g srcs" and "distinct (map sourceName g)" and "f \<in> set g"
    and "sourceName f \<in> fst ` set srcs"
  shows "map_of srcs (sourceName f) = Some (rawContent f)"
proof -
  from assms(4) obtain v where v: "map_of srcs (sourceName f) = Some v"
    by (metis domD dom_map_of_conv_image_fst)
  with assms(1) obtain f' where "f' \<in> set g" "sourceName f' = sourceName f" "rawContent f' = v"
    by (auto simp: contentOf_def)
  with assms(2,3) have "f' = f"
    by (metis distinct_map inj_onD)
  with v \<open>rawContent f' = v\<close> show ?thesis by simp
qed

subsection \<open>The store\<close>

lemma contract_store:
  assumes "md < length (sourcesCells s)"
  shows "sourcesCells (getContracts_contract_store g f md c s) =
           (sourcesCells s)[md := getContracts_contract g f c (sourcesCells s ! md)]"
    and "arrayCells (getContracts_contract_store g f md c s) = arrayCells s"
    and "contractCells (getContracts_contract_store g f md c s) = contractCells s"
    and "\<exists>vs. visitedCells (getContracts_contract_store g f md c s) = visitedCells s @ vs"
  using assms
  by (auto simp: getContracts_contract_store_def getContracts_contract_def newVisited_def
      resolveDependencies_store_def Let_def list_update_same_conv)

lemma file_store:
  assumes "md < length (sourcesCells s)"
  shows "sourcesCells (getContracts_file_store g cs md f s) =
           (sourcesCells s)[md := getContracts_file g cs f (sourcesCells s ! md)]
       \<and> arrayCells (getContracts_file_store g cs md f s) = arrayCells s
       \<and> contractCells (getContracts_file_store g cs md f s) = contractCells s
       \<and> (\<exists>vs. visitedCells (getContracts_file_store g cs md f s) = visitedCells s @ vs)"
  using assms unfolding getContracts_file_store_def getContracts_file_def
proof (induction cs arbitrary: s)
  case Nil
  then show ?case by (simp add: list_update_same_conv)
next
  case (Cons c cs)
  let ?s = "getContracts_contract_store g f md c s"
  note b = contract_store [OF Cons.prems, of g f c]
  from b(1) Cons.prems have md: "md < length (sourcesCells ?s)" by simp
  from b(4) obtain vs where vs: "visitedCells ?s = visitedCells s @ vs" by blast
  from Cons.IH [OF md] obtain vs' where
    "sourcesCells (fold (getContracts_contract_store g f md) cs ?s) =
       (sourcesCells ?s)[md := fold (getContracts_contract g f) cs (sourcesCells ?s ! md)]"
    "arrayCells (fold (getContracts_contract_store g f md) cs ?s) = arrayCells ?s"
    "contractCells (fold (getContracts_contract_store g f md) cs ?s) = contractCells ?s"
    "visitedCells (fold (getContracts_contract_store g f md) cs ?s) = visitedCells ?s @ vs'"
    by blast
  with b(1,2,3) vs Cons.prems show ?case by simp
qed

lemma files_store:
  assumes "md < length (sourcesCells s)"
  shows "sourcesCells (fold (getContracts_file_store g cs md) fs s) =
           (sourcesCells s)[md := fold (getContracts_file g cs) fs (sourcesCells s ! md)]
       \<and> arrayCells (fold (getContracts_file_store g cs md) fs s) = arrayCells s
       \<and> contractCells (fold (getContracts_file_store g cs md) fs s) = contractCells s
       \<and> (\<exists>vs. visitedCells (fold (getContracts_file_store g cs md) fs s) = visitedCells s @ vs)"
  using assms
proof (induction fs arbitrary: s)
  case Nil
  then show ?case by (simp add: list_update_same_conv)
next
  case (Cons f fs)
  let ?s = "getContracts_file_store g cs md f s"
  note b = file_store [OF Cons.prems, of g cs f]
  from b Cons.prems have md: "md < length (sourcesCells ?s)" by simp
  from b obtain vs where vs: "visitedCells ?s = visitedCells s @ vs" by blast
  from Cons.IH [OF md] obtain vs' where
    "sourcesCells (fold (getContracts_file_store g cs md) fs ?s) =
       (sourcesCells ?s)[md := fold (getContracts_file g cs) fs (sourcesCells ?s ! md)]"
    "arrayCells (fold (getContracts_file_store g cs md) fs ?s) = arrayCells ?s"
    "contractCells (fold (getContracts_file_store g cs md) fs ?s) = contractCells ?s"
    "visitedCells (fold (getContracts_file_store g cs md) fs ?s) = visitedCells ?s @ vs'"
    by blast
  with b vs Cons.prems show ?case by simp
qed

lemma entries_store:
  assumes "rc < length (arrayCells s)"
  shows "arrayCells (fold (getContracts_entry_store env rc) kvs s) =
           (arrayCells s)[rc := arrayCells s ! rc @
              [length (contractCells s) ..< length (contractCells s) + length kvs]]
       \<and> contractCells (fold (getContracts_entry_store env rc) kvs s) =
           contractCells s @ map (contractToPush env) kvs
       \<and> sourcesCells (fold (getContracts_entry_store env rc) kvs s) = sourcesCells s
       \<and> visitedCells (fold (getContracts_entry_store env rc) kvs s) = visitedCells s"
  using assms
proof (induction kvs arbitrary: s)
  case Nil
  then show ?case by (simp add: list_update_same_conv)
next
  case (Cons kv kvs)
  let ?s = "getContracts_entry_store env rc kv s"
  have b: "arrayCells ?s = (arrayCells s)[rc := arrayCells s ! rc @ [length (contractCells s)]]"
    "contractCells ?s = contractCells s @ [contractToPush env kv]"
    "sourcesCells ?s = sourcesCells s" "visitedCells ?s = visitedCells s"
    by (simp_all add: getContracts_entry_store_def newContract_def)
  from b(1) Cons.prems have rc: "rc < length (arrayCells ?s)" by simp
  have "[length (contractCells s) ..< length (contractCells s) + Suc (length kvs)] =
      length (contractCells s) # [Suc (length (contractCells s)) ..< Suc (length (contractCells s)) + length kvs]"
    by (subst upt_rec) simp
  with Cons.IH [OF rc] b Cons.prems show ?case by simp
qed

lemma getContracts_store_eq:
  "\<exists>vs. getContracts_store env g cs s =
     (length (arrayCells s),
      \<lparr>arrayCells = arrayCells s @
         [[length (contractCells s) ..< length (contractCells s) + length (getContracts env g cs)]],
       sourcesCells = sourcesCells s @ [getContracts_sources g cs],
       visitedCells = visitedCells s @ vs,
       contractCells = contractCells s @ getContracts env g cs\<rparr>)"
proof -
  let ?rc = "length (arrayCells s)" and ?md = "length (sourcesCells s)"
  let ?s2 = "s\<lparr>arrayCells := arrayCells s @ [[]], sourcesCells := sourcesCells s @ [[]]\<rparr>"
  let ?s3 = "fold (getContracts_file_store g cs ?md) g ?s2"
  let ?s4 = "fold (getContracts_entry_store env ?rc) (sourcesCells ?s3 ! ?md) ?s3"
  have run: "getContracts_store env g cs s = (?rc, ?s4)"
    by (simp add: getContracts_store_def newArray_def newSources_def Let_def)
  have "?md < length (sourcesCells ?s2)" by simp
  from files_store [OF this, of g cs g] obtain vs where 3:
    "sourcesCells ?s3 = sourcesCells s @ [getContracts_sources g cs]"
    "arrayCells ?s3 = arrayCells s @ [[]]" "contractCells ?s3 = contractCells s"
    "visitedCells ?s3 = visitedCells s @ vs"
    by (auto simp: getContracts_sources_def)
  then have md: "sourcesCells ?s3 ! ?md = getContracts_sources g cs" by simp
  from 3 have "?rc < length (arrayCells ?s3)" by simp
  from entries_store [OF this, of env "getContracts_sources g cs"] 3
  have 4: "arrayCells ?s4 = arrayCells s @
         [[length (contractCells s) ..< length (contractCells s) + length (getContracts env g cs)]]"
    "contractCells ?s4 = contractCells s @ getContracts env g cs"
    "sourcesCells ?s4 = sourcesCells s @ [getContracts_sources g cs]"
    "visitedCells ?s4 = visitedCells s @ vs"
    unfolding md by (simp_all add: getContracts_def)
  then have eq: "?s4 = \<lparr>arrayCells = arrayCells s @
         [[length (contractCells s) ..< length (contractCells s) + length (getContracts env g cs)]],
       sourcesCells = sourcesCells s @ [getContracts_sources g cs],
       visitedCells = visitedCells s @ vs,
       contractCells = contractCells s @ getContracts env g cs\<rparr>"
    by (intro store.equality) simp_all
  show ?thesis
    unfolding run eq by blast
qed


lemma map_nth_update_distinct:
  assumes "distinct addrs" and "i < length addrs" and "\<forall>a\<in>set addrs. a < length C"
  shows "map (\<lambda>a. C[addrs ! i := v] ! a) addrs = (map (\<lambda>a. C ! a) addrs)[i := v]"
proof (rule nth_equalityI)
  show "length (map (\<lambda>a. C[addrs ! i := v] ! a) addrs) = length ((map (\<lambda>a. C ! a) addrs)[i := v])"
    by simp
next
  fix j assume "j < length (map (\<lambda>a. C[addrs ! i := v] ! a) addrs)"
  then have j: "j < length addrs" by simp
  show "map (\<lambda>a. C[addrs ! i := v] ! a) addrs ! j = (map (\<lambda>a. C ! a) addrs)[i := v] ! j"
  proof (cases "j = i")
    case True
    with assms show ?thesis by simp
  next
    case False
    with assms(1,2) j have "addrs ! j \<noteq> addrs ! i"
      by (simp add: nth_eq_iff_index_eq)
    with False j show ?thesis by simp
  qed
qed

lemma loop_store:
  assumes "arrayCells s ! rc = addrs" and "distinct addrs"
    and "\<forall>a\<in>set addrs. a < length (contractCells s)"
    and "filterContracts_loop_store env cs rc s w = (ok, s', w')"
  shows "arrayCells s' = arrayCells s \<and> sourcesCells s' = sourcesCells s \<and>
         visitedCells s' = visitedCells s \<and>
         length (contractCells s') = length (contractCells s) \<and>
         (\<forall>a. a \<notin> set addrs \<longrightarrow> contractCells s' ! a = contractCells s ! a) \<and>
         filterContracts_loop env cs (map (\<lambda>a. contractCells s ! a) addrs) w =
           (if ok then Some (map (\<lambda>a. contractCells s' ! a) addrs) else None, w')"
  using assms
proof (induction cs arbitrary: s)
  case Nil
  then show ?case by simp
next
  case (Cons c rest)
  show ?case
  proof (cases "targetNetwork (networkArg env) c")
    case None
    with Cons.prems show ?thesis by auto
  next
    case (Some n)
    have fi: "findIndex (\<lambda>a. contractName (contractCells s ! a) = name c) addrs =
        findIndex (\<lambda>e. contractName e = name c) (map (\<lambda>a. contractCells s ! a) addrs)"
      by (rule findIndex_map [of "\<lambda>e. contractName e = name c" "\<lambda>a. contractCells s ! a" addrs])
    show ?thesis
    proof (cases "findIndex (\<lambda>a. contractName (contractCells s ! a) = name c) addrs")
      case None
      with Cons.prems Some have "filterContracts_loop_store env rest rc s w = (ok, s', w')"
        by simp
      from Cons.IH [OF Cons.prems(1,2,3) this] None Some fi show ?thesis
        by simp
    next
      case (Some i)
      let ?v = "(contractCells s ! (addrs ! i))\<lparr>networks := [(networkKey env n, address c)]\<rparr>"
      let ?s2 = "s\<lparr>contractCells := (contractCells s)[addrs ! i := ?v]\<rparr>"
      from Some have i: "i < length addrs"
        by (simp add: findIndex_Some_iff)
      from Cons.prems Some \<open>targetNetwork (networkArg env) c = Some n\<close>
      have run: "filterContracts_loop_store env rest rc ?s2 w = (ok, s', w')"
        by simp
      have 1: "arrayCells ?s2 ! rc = addrs" using Cons.prems(1) by simp
      have 3: "\<forall>a\<in>set addrs. a < length (contractCells ?s2)" using Cons.prems(3) by simp
      note IH = Cons.IH [OF 1 Cons.prems(2) 3 run]
      have m: "map (\<lambda>a. (contractCells s)[addrs ! i := ?v] ! a) addrs =
          (map (\<lambda>a. contractCells s ! a) addrs)[i := ?v]"
        by (rule map_nth_update_distinct [OF Cons.prems(2) i Cons.prems(3)])
      have ai: "addrs ! i \<in> set addrs" using i by simp
      have pure: "filterContracts_loop env (c # rest) (map (\<lambda>a. contractCells s ! a) addrs) w =
          filterContracts_loop env rest (map (\<lambda>a. contractCells ?s2 ! a) addrs) w"
        using Some fi \<open>targetNetwork (networkArg env) c = Some n\<close> i by (simp add: m)
      have frame: "contractCells ?s2 ! a = contractCells s ! a" if "a \<notin> set addrs" for a
      proof -
        from that ai have "addrs ! i \<noteq> a" by auto
        then show ?thesis by simp
      qed
      from IH frame show ?thesis
        unfolding pure by simp
    qed
  qed
qed

lemma filterContracts_store_eq:
  assumes "filterContracts_store env g cs s w = (r, s', w')"
  shows "map_option (readRequest s') r = fst (filterContracts env g cs w)"
    and "w' = snd (filterContracts env g cs w)"
    and "\<exists>xs. arrayCells s' = arrayCells s @ [xs] \<and>
           set xs \<subseteq> {length (contractCells s) ..< length (contractCells s')}"
    and "\<exists>cs'. contractCells s' = contractCells s @ cs'"
    and "r \<noteq> None \<longrightarrow> r = Some \<lparr>contractsRef = length (arrayCells s), configValue = compilerConfig env\<rparr>"
proof -
  let ?n = "length (contractCells s)" and ?gc = "getContracts env g cs"
  let ?addrs = "[?n ..< ?n + length ?gc]"
  let ?req = "\<lparr>contractsRef = length (arrayCells s), configValue = compilerConfig env\<rparr>"
  from getContracts_store_eq [of env g cs s] obtain vs s1 where
    s1: "s1 = \<lparr>arrayCells = arrayCells s @ [?addrs],
       sourcesCells = sourcesCells s @ [getContracts_sources g cs],
       visitedCells = visitedCells s @ vs,
       contractCells = contractCells s @ ?gc\<rparr>"
    and gc: "getContracts_store env g cs s = (length (arrayCells s), s1)"
    by blast
  obtain ok where loop: "filterContracts_loop_store env cs (length (arrayCells s)) s1 w = (ok, s', w')"
    and r: "r = (if ok then Some ?req else None)"
    using assms gc
    by (auto simp: filterContracts_store_def getContractData_store_def split: prod.splits bool.splits)
  have a1: "arrayCells s1 ! length (arrayCells s) = ?addrs" by (simp add: s1)
  have a2: "distinct ?addrs" by simp
  have a3: "\<forall>a\<in>set ?addrs. a < length (contractCells s1)" by (simp add: s1)
  note L = loop_store [OF a1 a2 a3 loop]
  have deref: "map (\<lambda>a. contractCells s1 ! a) ?addrs = ?gc"
    by (auto simp: s1 intro!: nth_equalityI simp: nth_append)
  from L have pure: "filterContracts_loop env cs ?gc w =
      (if ok then Some (map (\<lambda>a. contractCells s' ! a) ?addrs) else None, w')"
    unfolding deref by simp
  from L have arr: "arrayCells s' = arrayCells s @ [?addrs]" by (simp add: s1)
  from L have len: "length (contractCells s') = ?n + length ?gc" by (simp add: s1)
  show "map_option (readRequest s') r = fst (filterContracts env g cs w)"
    using pure by (simp add: filterContracts_loop_form r readRequest_def arr getContractData_def)
  show "w' = snd (filterContracts env g cs w)"
    using pure by (simp add: filterContracts_loop_form)
  show "\<exists>xs. arrayCells s' = arrayCells s @ [xs] \<and> set xs \<subseteq> {?n ..< length (contractCells s')}"
    using arr len by auto
  show "\<exists>cs'. contractCells s' = contractCells s @ cs'"
  proof -
    have "take ?n (contractCells s') = contractCells s"
    proof (rule nth_equalityI)
      show "length (take ?n (contractCells s')) = length (contractCells s)"
        using len by simp
    next
      fix a assume "a < length (take ?n (contractCells s'))"
      then have a: "a < ?n" by simp
      then have "a \<notin> set ?addrs" by simp
      with L have "contractCells s' ! a = contractCells s1 ! a" by blast
      with a show "take ?n (contractCells s') ! a = contractCells s ! a"
        by (simp add: s1 nth_append)
    qed
    then have "contractCells s' = contractCells s @ drop ?n (contractCells s')"
      by (metis append_take_drop_id)
    then show ?thesis by blast
  qed
  show "r \<noteq> None \<longrightarrow> r = Some ?req"
    by (simp add: r)
qed

subsection \<open>The scenario\<close>


section \<open>Network resolution\<close>

text \<open>
  C1. For every requested contract, \<^verbatim>\<open>filterContracts\<close> resolves the target
  network by a three-branch rule: when the CLI network argument is the
  sentinel \<^verbatim>\<open>"hardhat"\<close>, the contract's own declared network; otherwise the CLI
  network argument when it is present (a string that is not empty, the test of
  \<^verbatim>\<open>||\<close>); otherwise the contract's own declared network. The loop applies
  the rule to every requested contract: a request is returned exactly when
  the rule yields a network for each of them, and the network the rule yields
  is the one attached. In the returned request the first entry of a requested
  name carries one pair: the address of the requested contract of that name
  (the last one, when the name is requested more than once) under the key read
  from the table for the network that the rule resolves for that contract.
\<close>

theorem targetNetwork_three_branch:
  "targetNetwork arg c =
     (if arg = Some ''hardhat'' then network c
      else if arg \<noteq> None \<and> arg \<noteq> Some [] then arg
      else network c) \<and>
   (fst (filterContracts env g cs w) \<noteq> None \<longleftrightarrow>
      (\<forall>c\<in>set cs.
         (if networkArg env = Some ''hardhat'' then network c
          else if networkArg env \<noteq> None \<and> networkArg env \<noteq> Some [] then networkArg env
          else network c) \<noteq> None)) \<and>
   (filterContracts env g cs w = (Some r, w') \<and>
    findIndex (\<lambda>e. contractName e = n) (contracts r) = Some i \<and> (\<exists>c\<in>set cs. name c = n) \<longrightarrow>
      (\<exists>nw.
         (if networkArg env = Some ''hardhat'' then network (last (filter (\<lambda>c. name c = n) cs))
          else if networkArg env \<noteq> None \<and> networkArg env \<noteq> Some [] then networkArg env
          else network (last (filter (\<lambda>c. name c = n) cs))) = Some nw \<and>
         networks (contracts r ! i) =
           [(networkKey env nw, address (last (filter (\<lambda>c. name c = n) cs)))]))"
proof (intro conjI impI)
  have rule: "targetNetwork arg c =
     (if arg = Some ''hardhat'' then network c
      else if arg \<noteq> None \<and> arg \<noteq> Some [] then arg
      else network c)" for arg c
    by (auto simp: targetNetwork_def jsOr_def split: option.splits)
  show "targetNetwork arg c =
     (if arg = Some ''hardhat'' then network c
      else if arg \<noteq> None \<and> arg \<noteq> Some [] then arg
      else network c)"
    by (rule rule)
  have "fst (filterContracts env g cs w) \<noteq> None \<longleftrightarrow>
      (\<forall>c\<in>set cs. targetNetwork (networkArg env) c \<noteq> None)"
    by (simp add: filterContracts_None_iff)
  then show "fst (filterContracts env g cs w) \<noteq> None \<longleftrightarrow>
      (\<forall>c\<in>set cs.
         (if networkArg env = Some ''hardhat'' then network c
          else if networkArg env \<noteq> None \<and> networkArg env \<noteq> Some [] then networkArg env
          else network c) \<noteq> None)"
    by (simp only: rule [symmetric])
  assume a: "filterContracts env g cs w = (Some r, w') \<and>
    findIndex (\<lambda>e. contractName e = n) (contracts r) = Some i \<and> (\<exists>c\<in>set cs. name c = n)"
  let ?l = "last (filter (\<lambda>c. name c = n) cs)"
  from a have f: "filterContracts env g cs w = (Some r, w')" by simp
  from a have i: "i < length (contracts r)" "contractName (contracts r ! i) = n"
    by (simp_all add: findIndex_Some_iff)
  from a have "filter (\<lambda>c. name c = n) cs \<noteq> []"
    by (simp add: filter_empty_conv)
  then have "?l \<in> set (filter (\<lambda>c. name c = n) cs)"
    by (rule last_in_set)
  then have "?l \<in> set cs" by simp
  with filterContracts_Some(3) [OF f] obtain nw where nw: "targetNetwork (networkArg env) ?l = Some nw"
    by blast
  from a i have "networks (contracts r ! i) = assignedNetworks env ?l"
    using filterContracts_networks [OF f i(1)] by simp
  with nw have "targetNetwork (networkArg env) ?l = Some nw \<and>
      networks (contracts r ! i) = [(networkKey env nw, address ?l)]"
    by (simp add: assignedNetworks_def)
  then show "\<exists>nw.
         (if networkArg env = Some ''hardhat'' then network ?l
          else if networkArg env \<noteq> None \<and> networkArg env \<noteq> Some [] then networkArg env
          else network ?l) = Some nw \<and>
         networks (contracts r ! i) = [(networkKey env nw, address ?l)]"
    unfolding rule by blast
qed

theorem targetNetwork_three_branch_witness:
  "targetNetwork (Some ''hardhat'') token = Some ''Ropsten'' \<and>
   targetNetwork (Some ''mainnet'') token = Some ''mainnet'' \<and>
   targetNetwork (Some []) token = Some ''Ropsten'' \<and>
   targetNetwork None token = Some ''Ropsten'' \<and>
   filterContracts (scenarioEnv\<lparr>networkArg := Some ''mainnet''\<rparr>) scenarioGraph [token] emptyWorld =
     (Some (scenarioRequest [(''1'', ''0xabc'')]), emptyWorld) \<and>
   networks (contracts (scenarioRequest [(''1'', ''0xabc'')]) ! 0) =
     [(networkKey (scenarioEnv\<lparr>networkArg := Some ''mainnet''\<rparr>) ''mainnet'', address token)]"
proof -
  let ?env = "scenarioEnv\<lparr>networkArg := Some ''mainnet''\<rparr>"
  let ?r = "scenarioRequest [(''1'', ''0xabc'')]"
  note t = targetNetwork_three_branch
  have f: "filterContracts ?env scenarioGraph [token] emptyWorld = (Some ?r, emptyWorld)"
    by code_simp
  have i: "findIndex (\<lambda>e. contractName e = ''Token'') (contracts ?r) = Some 0"
    by (simp add: scenarioRequest_def)
  have c: "\<exists>c\<in>set [token]. name c = ''Token''"
    by (simp add: token_def)
  have l: "last (filter (\<lambda>c. name c = ''Token'') [token]) = token"
    by (simp add: token_def)
  have a: "networkArg ?env = Some ''mainnet''"
    by simp
  from t [of None token ?env scenarioGraph "[token]" emptyWorld ?r emptyWorld "''Token''" 0] f i c
  obtain nw where
    "(if networkArg ?env = Some ''hardhat'' then network (last (filter (\<lambda>c. name c = ''Token'') [token]))
      else if networkArg ?env \<noteq> None \<and> networkArg ?env \<noteq> Some [] then networkArg ?env
      else network (last (filter (\<lambda>c. name c = ''Token'') [token]))) = Some nw"
    "networks (contracts ?r ! 0) =
       [(networkKey ?env nw, address (last (filter (\<lambda>c. name c = ''Token'') [token])))]"
    by blast
  then have n: "networks (contracts ?r ! 0) = [(networkKey ?env ''mainnet'', address token)]"
    unfolding l a by simp
  have "targetNetwork (Some ''hardhat'') token = Some ''Ropsten''"
    "targetNetwork (Some ''mainnet'') token = Some ''mainnet''"
    "targetNetwork (Some []) token = Some ''Ropsten''"
    "targetNetwork None token = Some ''Ropsten''"
    using t [of "Some ''hardhat''" token ?env scenarioGraph "[token]" emptyWorld ?r emptyWorld "''Token''" 0]
      t [of "Some ''mainnet''" token ?env scenarioGraph "[token]" emptyWorld ?r emptyWorld "''Token''" 0]
      t [of "Some []" token ?env scenarioGraph "[token]" emptyWorld ?r emptyWorld "''Token''" 0]
      t [of None token ?env scenarioGraph "[token]" emptyWorld ?r emptyWorld "''Token''" 0]
    by (simp_all add: token_def)
  with f n show ?thesis by blast
qed

text \<open>
  C2. If any contract of the list declares no network and no CLI network
  argument applies (it is undefined, empty or the sentinel), \<^verbatim>\<open>filterContracts\<close>
  returns null for the whole batch, and \<^verbatim>\<open>verify\<close> returns without calling
  \<^verbatim>\<open>TenderlyService.verifyContracts\<close>: the only effect is the console output,
  the network error of \<^verbatim>\<open>filterContracts\<close> followed by \<^verbatim>\<open>Verification failed\<close>.
\<close>

theorem unresolved_network_aborts_batch:
  assumes "c \<in> set (flatten css)" and "network c = None"
    and "networkArg env = None \<or> networkArg env = Some [] \<or> networkArg env = Some ''hardhat''"
  shows "fst (filterContracts env g (flatten css) w) = None
       \<and> verify env g verifyContracts css w =
           Inr (w\<lparr>console := console w @ [networkError env, ''Verification failed'']\<rparr>)"
proof -
  from assms have ex: "\<exists>c\<in>set (flatten css). targetNetwork (networkArg env) c = None"
    using targetNetwork_None_iff by blast
  then have 1: "fst (filterContracts env g (flatten css) w) = None"
    by (simp add: filterContracts_None_iff)
  from ex have 2: "snd (filterContracts env g (flatten css) w) = consoleLog (networkError env) w"
    by (simp add: filterContracts_world)
  from 1 2 have "filterContracts env g (flatten css) w = (None, consoleLog (networkError env) w)"
    by (metis prod.collapse)
  then have "verify env g verifyContracts css w =
      Inr (consoleLog ''Verification failed'' (consoleLog (networkError env) w))"
    by (simp add: verify_def)
  with 1 show ?thesis by (simp add: consoleLog_def)
qed

theorem unresolved_network_aborts_batch_witness:
  "fst (filterContracts scenarioEnv scenarioGraph (flatten [[token], [orphan]]) emptyWorld) = None \<and>
   verify scenarioEnv scenarioGraph (verifyThrows (ThrownValue (Some ''unreachable''))) [[token], [orphan]] emptyWorld =
     Inr \<lparr>console =
            [''Error in hardhat-tenderly: Please provide a network via the hardhat --network argument or directly in the contract'',
             ''Verification failed''],
          verifyCalls = [], pushCalls = []\<rparr>"
proof -
  have m: "orphan \<in> set (flatten [[token], [orphan]])"
    by (simp add: flatten_def)
  have n: "network orphan = None"
    by (simp add: orphan_def)
  have a: "networkArg scenarioEnv = None \<or> networkArg scenarioEnv = Some [] \<or>
      networkArg scenarioEnv = Some ''hardhat''"
    by (simp add: scenarioEnv_def)
  show ?thesis
    using unresolved_network_aborts_batch [OF m n a, of scenarioGraph emptyWorld "verifyThrows (ThrownValue (Some ''unreachable''))"]
    by (simp add: emptyWorld_def networkError_def scenarioEnv_def)
qed

section \<open>Network mapping\<close>

text \<open>
  C3, as stated: a network name that the lookup table lacks is a configuration
  error, and no request is assembled whose \<^verbatim>\<open>networks\<close> key comes from such a
  name. It fails: the table has no entry for \<^verbatim>\<open>goerli\<close>, and the request is
  returned with the key \<^verbatim>\<open>undefined\<close>.
\<close>

theorem unmapped_network_key_undefined:
  "map_of (networkMap scenarioEnv) (toLowerCase scenarioEnv ''Goerli'') = None \<and>
   filterContracts scenarioEnv scenarioGraph [stray] emptyWorld =
     (Some (scenarioRequest [(''undefined'', ''0xabc'')]), emptyWorld)"
  by code_simp

text \<open>
  C3, amended. \<^verbatim>\<open>filterContracts\<close> raises no configuration error for a name that
  the table lacks. It returns null exactly when some requested contract has no
  network at all, whatever the table holds; it writes the network error to the
  console in that case and nothing in any other. Every key of a \<^verbatim>\<open>networks\<close>
  object in the returned request belongs to a requested contract of the
  entry's name and is what the property read \<^verbatim>\<open>NetworkMap[...]\<close> gives for that
  contract's resolved network name, lower-cased by the runtime: the table's
  identifier when the table has the name, and for a name the table lacks the
  property name \<^verbatim>\<open>undefined\<close>, or that of a property the table object inherits
  under that name. The identifier of another network is never put in its
  place.
\<close>

theorem unmapped_network_not_an_error:
  "(fst (filterContracts env g cs w) = None \<longleftrightarrow> (\<exists>c\<in>set cs. targetNetwork (networkArg env) c = None)) \<and>
   snd (filterContracts env g cs w) =
     (if \<exists>c\<in>set cs. targetNetwork (networkArg env) c = None
      then w\<lparr>console := console w @ [networkError env]\<rparr> else w) \<and>
   (filterContracts env g cs w = (Some r, w') \<and> e \<in> set (contracts r) \<and> (k, a) \<in> set (networks e) \<longrightarrow>
      (\<exists>c\<in>set cs. \<exists>n. name c = contractName e \<and> a = address c \<and>
          targetNetwork (networkArg env) c = Some n \<and>
          k = (case map_of (networkMap env) (toLowerCase env n) of
                 Some ident \<Rightarrow> ident
               | None \<Rightarrow>
                   (case map_of (inheritedProperties env) (toLowerCase env n) of
                      Some inherited \<Rightarrow> inherited
                    | None \<Rightarrow> ''undefined''))))"
proof (intro conjI impI)
  show "fst (filterContracts env g cs w) = None \<longleftrightarrow> (\<exists>c\<in>set cs. targetNetwork (networkArg env) c = None)"
    by (rule filterContracts_None_iff)
  show "snd (filterContracts env g cs w) =
     (if \<exists>c\<in>set cs. targetNetwork (networkArg env) c = None
      then w\<lparr>console := console w @ [networkError env]\<rparr> else w)"
    by (simp only: filterContracts_world consoleLog_def)
next
  assume a: "filterContracts env g cs w = (Some r, w') \<and> e \<in> set (contracts r) \<and> (k, a) \<in> set (networks e)"
  then have f: "filterContracts env g cs w = (Some r, w')" by simp
  from a obtain j where j: "j < length (contracts r)" "e = contracts r ! j"
    by (auto simp: in_set_conv_nth)
  let ?l = "last (filter (\<lambda>c. name c = contractName e) cs)"
  from a have "networks e \<noteq> []" by auto
  with filterContracts_networks [OF f j(1)] j(2)
  have ex: "\<exists>c\<in>set cs. name c = contractName e" and nets: "networks e = assignedNetworks env ?l"
    by (auto split: if_splits)
  from ex have "filter (\<lambda>c. name c = contractName e) cs \<noteq> []"
    by (simp add: filter_empty_conv)
  then have "?l \<in> set (filter (\<lambda>c. name c = contractName e) cs)"
    by (rule last_in_set)
  then have l: "?l \<in> set cs" "name ?l = contractName e" by simp_all
  from a nets obtain n where n: "targetNetwork (networkArg env) ?l = Some n"
    "k = networkKey env n" "a = address ?l"
    by (auto simp: assignedNetworks_def split: option.splits)
  have "networkKey env n =
      (case map_of (networkMap env) (toLowerCase env n) of
         Some ident \<Rightarrow> ident
       | None \<Rightarrow>
           (case map_of (inheritedProperties env) (toLowerCase env n) of
              Some inherited \<Rightarrow> inherited
            | None \<Rightarrow> ''undefined''))"
    by (simp add: networkKey_def networkMapRead_def split: option.splits)
  with n l show "\<exists>c\<in>set cs. \<exists>n. name c = contractName e \<and> a = address c \<and>
          targetNetwork (networkArg env) c = Some n \<and>
          k = (case map_of (networkMap env) (toLowerCase env n) of
                 Some ident \<Rightarrow> ident
               | None \<Rightarrow>
                   (case map_of (inheritedProperties env) (toLowerCase env n) of
                      Some inherited \<Rightarrow> inherited
                    | None \<Rightarrow> ''undefined''))"
    by metis
qed

theorem unmapped_network_not_an_error_witness:
  "filterContracts scenarioEnv scenarioGraph [heir] emptyWorld =
     (Some (scenarioRequest [(''function Object() { [native code] }'', ''0xabc'')]), emptyWorld) \<and>
   snd (filterContracts scenarioEnv scenarioGraph [stray] emptyWorld) = emptyWorld \<and>
   (\<exists>c\<in>set [stray]. \<exists>n. name c = ''Token'' \<and> ''0xabc'' = address c \<and>
      targetNetwork (networkArg scenarioEnv) c = Some n \<and>
      ''undefined'' =
        (case map_of (networkMap scenarioEnv) (toLowerCase scenarioEnv n) of
           Some ident \<Rightarrow> ident
         | None \<Rightarrow>
             (case map_of (inheritedProperties scenarioEnv) (toLowerCase scenarioEnv n) of
                Some inherited \<Rightarrow> inherited
              | None \<Rightarrow> ''undefined''))) \<and>
   (\<exists>c\<in>set [heir]. \<exists>n. name c = ''Token'' \<and> ''0xabc'' = address c \<and>
      targetNetwork (networkArg scenarioEnv) c = Some n \<and>
      ''function Object() { [native code] }'' =
        (case map_of (networkMap scenarioEnv) (toLowerCase scenarioEnv n) of
           Some ident \<Rightarrow> ident
         | None \<Rightarrow>
             (case map_of (inheritedProperties scenarioEnv) (toLowerCase scenarioEnv n) of
                Some inherited \<Rightarrow> inherited
              | None \<Rightarrow> ''undefined'')))"
proof -
  let ?e = "\<lambda>key. \<lparr>contractName = ''Token'', source = ''contract Token {}'',
      sourcePath = ''contracts/Token.sol'', networks = [(key, ''0xabc'')],
      compilerName = ''solc'', compilerVersion = ''0.8.0''\<rparr>"
  let ?inherited = "''function Object() { [native code] }''"
  note t = unmapped_network_not_an_error
  have f: "filterContracts scenarioEnv scenarioGraph [stray] emptyWorld =
      (Some (scenarioRequest [(''undefined'', ''0xabc'')]), emptyWorld)"
    by code_simp
  have h: "filterContracts scenarioEnv scenarioGraph [heir] emptyWorld =
      (Some (scenarioRequest [(?inherited, ''0xabc'')]), emptyWorld)"
    by code_simp
  have e: "?e key \<in> set (contracts (scenarioRequest [(key, ''0xabc'')]))" for key
    by (simp add: scenarioRequest_def)
  have k: "(key, ''0xabc'') \<in> set (networks (?e key))" for key
    by simp
  have c: "contractName (?e key) = ''Token''" for key
    by simp
  from t [of scenarioEnv scenarioGraph "[stray]" emptyWorld
      "scenarioRequest [(''undefined'', ''0xabc'')]" emptyWorld "?e ''undefined''" "''undefined''" "''0xabc''"]
  have 1: "snd (filterContracts scenarioEnv scenarioGraph [stray] emptyWorld) = emptyWorld"
    using f by simp
  from t [of scenarioEnv scenarioGraph "[stray]" emptyWorld
      "scenarioRequest [(''undefined'', ''0xabc'')]" emptyWorld "?e ''undefined''" "''undefined''" "''0xabc''"]
    f e [of "''undefined''"] k [of "''undefined''"]
  have 2: "\<exists>c\<in>set [stray]. \<exists>n. name c = contractName (?e ''undefined'') \<and> ''0xabc'' = address c \<and>
      targetNetwork (networkArg scenarioEnv) c = Some n \<and>
      ''undefined'' =
        (case map_of (networkMap scenarioEnv) (toLowerCase scenarioEnv n) of
           Some ident \<Rightarrow> ident
         | None \<Rightarrow>
             (case map_of (inheritedProperties scenarioEnv) (toLowerCase scenarioEnv n) of
                Some inherited \<Rightarrow> inherited
              | None \<Rightarrow> ''undefined''))"
    by blast
  from t [of scenarioEnv scenarioGraph "[heir]" emptyWorld
      "scenarioRequest [(?inherited, ''0xabc'')]" emptyWorld "?e ?inherited" ?inherited "''0xabc''"]
    h e [of ?inherited] k [of ?inherited]
  have 3: "\<exists>c\<in>set [heir]. \<exists>n. name c = contractName (?e ?inherited) \<and> ''0xabc'' = address c \<and>
      targetNetwork (networkArg scenarioEnv) c = Some n \<and>
      ?inherited =
        (case map_of (networkMap scenarioEnv) (toLowerCase scenarioEnv n) of
           Some ident \<Rightarrow> ident
         | None \<Rightarrow>
             (case map_of (inheritedProperties scenarioEnv) (toLowerCase scenarioEnv n) of
                Some inherited \<Rightarrow> inherited
              | None \<Rightarrow> ''undefined''))"
    by blast
  from h 1 2 3 show ?thesis
    unfolding c by blast
qed

section \<open>Entries of the request\<close>

text \<open>
  C4, as stated: when each requested name matches a resolved file, the request
  has exactly one entry per matched name, no duplicates and no entries for
  other names. It fails: with \<^verbatim>\<open>Token\<close> requested, the request for \<open>twinGraph\<close>
  has two entries named \<^verbatim>\<open>Token\<close> (one per file of that short name) and an
  entry for the imported library.
\<close>

theorem entries_for_other_names_and_duplicates:
  "shortName ''a/Token.sol'' = name token \<and>
   filterContracts scenarioEnv twinGraph [token] emptyWorld = (Some (twinRequest [(''3'', ''0xabc'')]), emptyWorld) \<and>
   map contractName (contracts (twinRequest [(''3'', ''0xabc'')])) = [''Token'', ''Lib'', ''Token'']"
  by code_simp

text \<open>
  C4, amended. The request has exactly one entry per source path recorded in
  \<^verbatim>\<open>metadata.sources\<close>: the paths of its entries are distinct and are the files
  of the graph reached along import edges from the files whose short name is
  requested; each entry is named by the short name of its path, and every
  requested name that matches a resolved file names at least one entry. Names
  may repeat, and the names of imported files appear.
\<close>

theorem request_entries_per_source_path:
  assumes "filterContracts env g cs w = (Some r, w')"
  shows "set (map sourcePath (contracts r)) =
           (\<Union>f\<in>{f \<in> set g. \<exists>c\<in>set cs. name c = shortName (sourceName f)}. closureOf g (sourceName f))
       \<and> distinct (map sourcePath (contracts r))
       \<and> (\<forall>e\<in>set (contracts r). contractName e = shortName (sourcePath e))
       \<and> (\<forall>c\<in>set cs. (\<exists>f\<in>set g. shortName (sourceName f) = name c) \<longrightarrow>
             (\<exists>e\<in>set (contracts r). contractName e = name c))"
proof (intro conjI)
  note n = filterContracts_names [OF assms]
  show paths: "set (map sourcePath (contracts r)) =
      (\<Union>f\<in>{f \<in> set g. \<exists>c\<in>set cs. name c = shortName (sourceName f)}. closureOf g (sourceName f))"
    using sources_keys [of g cs] by (simp add: n(2) getContracts_paths)
  show "distinct (map sourcePath (contracts r))"
    by (simp add: n(2) getContracts_paths sources_distinct)
  have "map contractName (contracts r) = map shortName (map sourcePath (contracts r))"
    unfolding n by (simp add: getContracts_def contractToPush_def)
  then have "map contractName (contracts r) = map (\<lambda>e. shortName (sourcePath e)) (contracts r)"
    by (simp add: comp_def)
  then show short: "\<forall>e\<in>set (contracts r). contractName e = shortName (sourcePath e)"
    by (simp add: map_eq_conv)
  show "\<forall>c\<in>set cs. (\<exists>f\<in>set g. shortName (sourceName f) = name c) \<longrightarrow>
             (\<exists>e\<in>set (contracts r). contractName e = name c)"
  proof (intro ballI impI)
    fix c assume c: "c \<in> set cs" and "\<exists>f\<in>set g. shortName (sourceName f) = name c"
    then obtain f where f: "f \<in> set g" "shortName (sourceName f) = name c" by blast
    from c f(1) f(2) [symmetric] closureOf_self [OF f(1)]
    have "sourceName f \<in> (\<Union>f\<in>{f \<in> set g. \<exists>c\<in>set cs. name c = shortName (sourceName f)}.
        closureOf g (sourceName f))"
      by blast
    then have "sourceName f \<in> set (map sourcePath (contracts r))"
      unfolding paths .
    then obtain e where "e \<in> set (contracts r)" "sourcePath e = sourceName f" by auto
    with short f(2) show "\<exists>e\<in>set (contracts r). contractName e = name c" by metis
  qed
qed

theorem request_entries_per_source_path_witness:
  "filterContracts scenarioEnv twinGraph [token] emptyWorld = (Some (twinRequest [(''3'', ''0xabc'')]), emptyWorld) \<and>
   distinct (map sourcePath (contracts (twinRequest [(''3'', ''0xabc'')]))) \<and>
   (\<exists>e\<in>set (contracts (twinRequest [(''3'', ''0xabc'')])). contractName e = name token)"
proof -
  have f: "filterContracts scenarioEnv twinGraph [token] emptyWorld = (Some (twinRequest [(''3'', ''0xabc'')]), emptyWorld)"
    by code_simp
  have m: "\<exists>f\<in>set twinGraph. shortName (sourceName f) = name token"
    by code_simp
  note t = request_entries_per_source_path [OF f]
  from t have d: "distinct (map sourcePath (contracts (twinRequest [(''3'', ''0xabc'')])))"
    by blast
  from t have "\<forall>c\<in>set [token]. (\<exists>f\<in>set twinGraph. shortName (sourceName f) = name c) \<longrightarrow>
      (\<exists>e\<in>set (contracts (twinRequest [(''3'', ''0xabc'')])). contractName e = name c)"
    by blast
  with m have "\<exists>e\<in>set (contracts (twinRequest [(''3'', ''0xabc'')])). contractName e = name token"
    by simp
  with f d show ?thesis
    by blast
qed

section \<open>Dependency resolution\<close>

text \<open>
  C5. \<^verbatim>\<open>resolveDependencies\<close> returns for every graph, cyclic or not, and every
  starting path (the recursion is a total function, see the termination proof
  at its definition and \<open>resolveDependencies_rec\<close>). Called with an
  accumulator and a visited-set, it records no path twice and no path that the
  visited-set already holds, so it records at most as many files as the graph
  has; the keys it leaves in the accumulator are those it found there and
  those it recorded.
\<close>

theorem resolveDependencies_records_once:
  "(let res = resolveDependencies g p \<lparr>sources = srcs, visited = v, writes = []\<rparr>
    in distinct (writes res) \<and> set (writes res) \<inter> v = {} \<and>
       length (writes res) \<le> length g \<and>
       fst ` set (sources res) = fst ` set srcs \<union> set (writes res))"
proof -
  let ?st = "\<lparr>sources = srcs, visited = v, writes = []\<rparr>"
  from pending_writes [of g "[p]" ?st] obtain new where new:
    "writes (resolvePending g [p] ?st) = new" "distinct new" "set new \<inter> v = {}"
    "set new \<subseteq> sourceNames g" "sourceKeys (resolvePending g [p] ?st) = sourceKeys ?st \<union> set new"
    by auto
  have "length new = card (set new)"
    using new(2) by (simp add: distinct_card)
  also have "\<dots> \<le> card (sourceNames g)"
    using new(4) by (intro card_mono) (simp_all add: sourceNames_def)
  also have "\<dots> \<le> length g"
    unfolding sourceNames_def by (metis card_length length_map)
  finally have "length new \<le> length g" .
  with new show ?thesis
    by (simp add: resolveDependencies_def Let_def sourceKeys_def)
qed

theorem resolveDependencies_records_once_witness:
  "writes (resolveDependencies cyclicGraph ''A.sol'' \<lparr>sources = [], visited = {}, writes = []\<rparr>) =
     [''A.sol'', ''B.sol'', ''C.sol''] \<and>
   distinct (writes (resolveDependencies cyclicGraph ''A.sol'' \<lparr>sources = [], visited = {}, writes = []\<rparr>))"
proof -
  have "writes (resolveDependencies cyclicGraph ''A.sol'' \<lparr>sources = [], visited = {}, writes = []\<rparr>) =
     [''A.sol'', ''B.sol'', ''C.sol'']"
    by code_simp
  with resolveDependencies_records_once [of cyclicGraph "''A.sol''" "[]" "{}"] show ?thesis
    by (simp add: Let_def)
qed

text \<open>
  C9. Two requested contracts whose source files both import the same library
  file: \<^verbatim>\<open>metadata.sources\<close> holds the library exactly once, under its path and
  with its raw content; resolving the second contract on an accumulator that
  already holds the library leaves that entry as it is. The source names of
  the graph are distinct, as the keys of the host's map of resolved files are.
\<close>

theorem shared_library_recorded_once:
  assumes "distinct (map sourceName g)"
    and "f1 \<in> set g" and "f2 \<in> set g" and "lib \<in> set g"
    and "c1 \<in> set cs" and "c2 \<in> set cs"
    and "name c1 = shortName (sourceName f1)" and "name c2 = shortName (sourceName f2)"
    and "sourceName lib \<in> set (dependencies f1)" and "sourceName lib \<in> set (dependencies f2)"
  shows "filter (\<lambda>kv. fst kv = sourceName lib) (getContracts_sources g cs) =
           [(sourceName lib, rawContent lib)]
       \<and> (distinct (map fst srcs) \<and> contentOf g srcs \<and> sourceName lib \<in> fst ` set srcs \<longrightarrow>
            filter (\<lambda>kv. fst kv = sourceName lib) (getContracts_contract g f2 c2 srcs) =
              filter (\<lambda>kv. fst kv = sourceName lib) srcs)"
proof (intro conjI impI)
  have "lookupFile g (sourceName f1) = Some f1"
    using assms(1,2) by (rule lookupFile_distinct)
  with assms(9) have "(sourceName f1, sourceName lib) \<in> importEdges g"
    by (auto simp: importEdges_def)
  with assms(4) have "sourceName lib \<in> closureOf g (sourceName f1)"
    by (auto simp: closureOf_def sourceNames_def)
  with assms(2,5,7) have "sourceName lib \<in> fst ` set (getContracts_sources g cs)"
    unfolding sources_keys by blast
  with sources_contents [of g cs] assms(1,4)
  have "map_of (getContracts_sources g cs) (sourceName lib) = Some (rawContent lib)"
    by (intro contentOf_unique)
  with sources_distinct [of g cs]
  show "filter (\<lambda>kv. fst kv = sourceName lib) (getContracts_sources g cs) =
      [(sourceName lib, rawContent lib)]"
    by (rule distinct_filter_key)
next
  assume a: "distinct (map fst srcs) \<and> contentOf g srcs \<and> sourceName lib \<in> fst ` set srcs"
  let ?srcs' = "getContracts_contract g f2 c2 srcs"
  from a have d: "distinct (map fst ?srcs')" by (simp add: contract_distinct)
  from a assms(3) have c: "contentOf g ?srcs'" by (simp add: contract_contents)
  from a have k: "sourceName lib \<in> fst ` set ?srcs'"
    using contract_keys [OF assms(3), of c2 srcs] by auto
  from a assms(1,4) have "map_of srcs (sourceName lib) = Some (rawContent lib)"
    by (intro contentOf_unique) simp_all
  with a have 1: "filter (\<lambda>kv. fst kv = sourceName lib) srcs = [(sourceName lib, rawContent lib)]"
    by (intro distinct_filter_key) simp_all
  from c assms(1,4) k have "map_of ?srcs' (sourceName lib) = Some (rawContent lib)"
    by (intro contentOf_unique)
  with d have "filter (\<lambda>kv. fst kv = sourceName lib) ?srcs' = [(sourceName lib, rawContent lib)]"
    by (rule distinct_filter_key)
  with 1 show "filter (\<lambda>kv. fst kv = sourceName lib) ?srcs' = filter (\<lambda>kv. fst kv = sourceName lib) srcs"
    by simp
qed

theorem shared_library_recorded_once_witness:
  "getContracts_sources sharedGraph [token, vault] =
     [(''contracts/Token.sol'', ''contract Token {}''),
      (''contracts/Lib.sol'', ''library Lib {}''),
      (''contracts/Vault.sol'', ''contract Vault {}'')] \<and>
   filter (\<lambda>kv. fst kv = sourceName libFile) (getContracts_sources sharedGraph [token, vault]) =
     [(''contracts/Lib.sol'', ''library Lib {}'')] \<and>
   filter (\<lambda>kv. fst kv = sourceName libFile)
     (getContracts_contract sharedGraph vaultFile vault
        [(''contracts/Token.sol'', ''contract Token {}''), (''contracts/Lib.sol'', ''library Lib {}'')]) =
     [(''contracts/Lib.sol'', ''library Lib {}'')]"
proof -
  have g: "distinct (map sourceName sharedGraph)"
    "tokenFile \<in> set sharedGraph" "vaultFile \<in> set sharedGraph" "libFile \<in> set sharedGraph"
    by (simp_all add: sharedGraph_def tokenFile_def vaultFile_def libFile_def)
  have c: "token \<in> set [token, vault]" "vault \<in> set [token, vault]"
    by simp_all
  have n: "name token = shortName (sourceName tokenFile)" "name vault = shortName (sourceName vaultFile)"
    by (simp_all add: token_def vault_def tokenFile_def vaultFile_def shortName_def)
  have d: "sourceName libFile \<in> set (dependencies tokenFile)"
    "sourceName libFile \<in> set (dependencies vaultFile)"
    by (simp_all add: tokenFile_def vaultFile_def libFile_def)
  have s: "distinct (map fst [(''contracts/Token.sol'', ''contract Token {}''),
        (''contracts/Lib.sol'', ''library Lib {}'')]) \<and>
      contentOf sharedGraph [(''contracts/Token.sol'', ''contract Token {}''),
        (''contracts/Lib.sol'', ''library Lib {}'')] \<and>
      sourceName libFile \<in> fst ` set [(''contracts/Token.sol'', ''contract Token {}''),
        (''contracts/Lib.sol'', ''library Lib {}'')]"
    by (simp add: contentOf_def sharedGraph_def tokenFile_def vaultFile_def libFile_def)
  have v: "getContracts_sources sharedGraph [token, vault] =
     [(''contracts/Token.sol'', ''contract Token {}''),
      (''contracts/Lib.sol'', ''library Lib {}''),
      (''contracts/Vault.sol'', ''contract Vault {}'')]"
    by code_simp
  from shared_library_recorded_once [OF g c n d,
      of "[(''contracts/Token.sol'', ''contract Token {}''), (''contracts/Lib.sol'', ''library Lib {}'')]"] s v
  show ?thesis
    by (simp add: libFile_def)
qed

section \<open>Networks of an entry\<close>

text \<open>
  C10. In the request that \<^verbatim>\<open>filterContracts\<close> returns, every \<^verbatim>\<open>networks\<close>
  object has at most one pair. For a requested name, the first entry of that
  name carries exactly the pair of the last requested contract of that name
  (its network key and its address); every other entry, a later entry of the
  same name or an entry whose name is not requested, has none.
\<close>

theorem networks_single_pair:
  assumes "filterContracts env g cs w = (Some r, w')"
  shows "(\<forall>e\<in>set (contracts r). length (networks e) \<le> 1)
       \<and> (\<forall>i n. findIndex (\<lambda>e. contractName e = n) (contracts r) = Some i \<and> (\<exists>c\<in>set cs. name c = n) \<longrightarrow>
            (\<exists>nw. targetNetwork (networkArg env) (last (filter (\<lambda>c. name c = n) cs)) = Some nw \<and>
                  networks (contracts r ! i) =
                    [(networkKey env nw, address (last (filter (\<lambda>c. name c = n) cs)))]))
       \<and> (\<forall>j<length (contracts r).
            findIndex (\<lambda>e. contractName e = contractName (contracts r ! j)) (contracts r) \<noteq> Some j \<or>
            \<not> (\<exists>c\<in>set cs. name c = contractName (contracts r ! j)) \<longrightarrow> networks (contracts r ! j) = [])"
proof -
  note S = filterContracts_Some [OF assms]
  note nets = filterContracts_networks [OF assms]
  have le: "length (assignedNetworks env c) \<le> 1" for c
    by (simp add: assignedNetworks_def split: option.splits)
  have 1: "\<forall>e\<in>set (contracts r). length (networks e) \<le> 1"
  proof
    fix e assume "e \<in> set (contracts r)"
    then obtain j where j: "j < length (contracts r)" "e = contracts r ! j"
      by (auto simp: in_set_conv_nth)
    show "length (networks e) \<le> 1"
      unfolding j(2) nets [OF j(1)] using le by simp
  qed
  have 2: "\<exists>nw. targetNetwork (networkArg env) (last (filter (\<lambda>c. name c = n) cs)) = Some nw \<and>
                  networks (contracts r ! i) =
                    [(networkKey env nw, address (last (filter (\<lambda>c. name c = n) cs)))]"
    if a: "findIndex (\<lambda>e. contractName e = n) (contracts r) = Some i \<and> (\<exists>c\<in>set cs. name c = n)" for i n
  proof -
    from a have i: "i < length (contracts r)" "contractName (contracts r ! i) = n"
      by (simp_all add: findIndex_Some_iff)
    from a have "filter (\<lambda>c. name c = n) cs \<noteq> []"
      by (simp add: filter_empty_conv)
    then have "last (filter (\<lambda>c. name c = n) cs) \<in> set (filter (\<lambda>c. name c = n) cs)"
      by (rule last_in_set)
    then have "last (filter (\<lambda>c. name c = n) cs) \<in> set cs" by simp
    with S(3) obtain nw where nw: "targetNetwork (networkArg env) (last (filter (\<lambda>c. name c = n) cs)) = Some nw"
      by blast
    from a i have "networks (contracts r ! i) = assignedNetworks env (last (filter (\<lambda>c. name c = n) cs))"
      using nets [OF i(1)] by simp
    with nw show ?thesis by (simp add: assignedNetworks_def)
  qed
  have 3: "\<forall>j<length (contracts r).
            findIndex (\<lambda>e. contractName e = contractName (contracts r ! j)) (contracts r) \<noteq> Some j \<or>
            \<not> (\<exists>c\<in>set cs. name c = contractName (contracts r ! j)) \<longrightarrow> networks (contracts r ! j) = []"
    using nets by auto
  from 1 2 3 show ?thesis by blast
qed

theorem networks_single_pair_witness:
  "filterContracts scenarioEnv twinGraph [token, tokenAgain] emptyWorld =
     (Some (twinRequest [(''1'', ''0xdef'')]), emptyWorld) \<and>
   networks (contracts (twinRequest [(''1'', ''0xdef'')]) ! 0) =
     [(networkKey scenarioEnv ''mainnet'', address tokenAgain)] \<and>
   networks (contracts (twinRequest [(''1'', ''0xdef'')]) ! 2) = []"
proof -
  have f: "filterContracts scenarioEnv twinGraph [token, tokenAgain] emptyWorld =
      (Some (twinRequest [(''1'', ''0xdef'')]), emptyWorld)"
    by code_simp
  have i: "findIndex (\<lambda>e. contractName e = ''Token'') (contracts (twinRequest [(''1'', ''0xdef'')])) = Some 0"
    by (simp add: twinRequest_def)
  have c: "\<exists>c\<in>set [token, tokenAgain]. name c = ''Token''"
    by (simp add: token_def)
  have l: "last (filter (\<lambda>c. name c = ''Token'') [token, tokenAgain]) = tokenAgain"
    by (simp add: token_def tokenAgain_def)
  have n: "targetNetwork (networkArg scenarioEnv) tokenAgain = Some ''mainnet''"
    by (simp add: targetNetwork_def jsOr_def scenarioEnv_def tokenAgain_def)
  have j: "findIndex (\<lambda>e. contractName e = contractName (contracts (twinRequest [(''1'', ''0xdef'')]) ! 2))
      (contracts (twinRequest [(''1'', ''0xdef'')])) \<noteq> Some 2"
    by (simp add: twinRequest_def)
  from networks_single_pair [OF f] i c obtain nw where
    "targetNetwork (networkArg scenarioEnv) (last (filter (\<lambda>c. name c = ''Token'') [token, tokenAgain])) = Some nw"
    "networks (contracts (twinRequest [(''1'', ''0xdef'')]) ! 0) =
       [(networkKey scenarioEnv nw, address (last (filter (\<lambda>c. name c = ''Token'') [token, tokenAgain])))]"
    by blast
  then have 0: "networks (contracts (twinRequest [(''1'', ''0xdef'')]) ! 0) =
      [(networkKey scenarioEnv ''mainnet'', address tokenAgain)]"
    unfolding l n by simp
  have "2 < length (contracts (twinRequest [(''1'', ''0xdef'')]))"
    by (simp add: twinRequest_def)
  with networks_single_pair [OF f] j
  have 2: "networks (contracts (twinRequest [(''1'', ''0xdef'')]) ! 2) = []"
    by blast
  from f 0 2 show ?thesis by blast
qed

section \<open>Errors of the remote call and missing configuration\<close>




text \<open>
  C7, as stated: with the project identifier or the username undefined,
  \<^verbatim>\<open>push\<close> emits a single log line. It fails when a requested contract has no
  resolvable network: \<^verbatim>\<open>filterContracts\<close> runs first and logs its own error, so
  two lines are written.
\<close>

theorem push_missing_project_two_lines:
  "project (scenarioEnv\<lparr>project := None\<rparr>) = None \<and>
   push (scenarioEnv\<lparr>project := None\<rparr>) scenarioGraph pushReturns [[orphan]] emptyWorld =
     Inr \<lparr>console =
            [''Error in hardhat-tenderly: Please provide a network via the hardhat --network argument or directly in the contract'',
             ''Error in hardhat-tenderly: Please provide the project field in the tenderly object in hardhat.config.js''],
          verifyCalls = [], pushCalls = []\<rparr>"
  by code_simp

text \<open>
  C7, amended. With the project identifier or the username undefined, \<^verbatim>\<open>push\<close>
  returns without calling \<^verbatim>\<open>TenderlyService.pushContracts\<close> and writes exactly
  one configuration line (for the project when that is undefined, else for the
  username); the line comes after the network error of \<^verbatim>\<open>filterContracts\<close> when
  some requested contract has no resolvable network, and is the only line
  otherwise.
\<close>

theorem push_missing_config_no_call:
  assumes "project env = None \<or> username env = None"
  shows "push env g pushContracts css w =
     Inr (w\<lparr>console := console w
          @ (if \<exists>c\<in>set (flatten css). targetNetwork (networkArg env) c = None
             then [networkError env] else [])
          @ [if project env = None then projectError env else usernameError env]\<rparr>)"
proof -
  obtain r w1 where f: "filterContracts env g (flatten css) w = (r, w1)"
    by (cases "filterContracts env g (flatten css) w")
  have w1: "w1 = (if \<exists>c\<in>set (flatten css). targetNetwork (networkArg env) c = None
      then consoleLog (networkError env) w else w)"
    using filterContracts_world [of env g "flatten css" w] f by simp
  from assms f have "push env g pushContracts css w =
      Inr (consoleLog (if project env = None then projectError env else usernameError env) w1)"
    by (auto simp: push_def split: option.splits)
  then show ?thesis by (simp add: w1 consoleLog_def)
qed

theorem push_missing_config_no_call_witness:
  "username (scenarioEnv\<lparr>username := None\<rparr>) = None \<and>
   push (scenarioEnv\<lparr>username := None\<rparr>) scenarioGraph pushReturns [[token]] emptyWorld =
     Inr \<lparr>console =
            [''Error in hardhat-tenderly: Please provide the username field in the tenderly object in hardhat.config.js''],
          verifyCalls = [], pushCalls = []\<rparr>"
proof -
  have u: "username (scenarioEnv\<lparr>username := None\<rparr>) = None" by simp
  have n: "\<not> (\<exists>c\<in>set (flatten [[token]]). targetNetwork (networkArg (scenarioEnv\<lparr>username := None\<rparr>)) c = None)"
    by (simp add: flatten_def token_def targetNetwork_def scenarioEnv_def jsOr_def)
  have pr: "project (scenarioEnv\<lparr>username := None\<rparr>) \<noteq> None"
    by (simp add: scenarioEnv_def)
  show ?thesis
    using push_missing_config_no_call [of "scenarioEnv\<lparr>username := None\<rparr>" scenarioGraph pushReturns "[[token]]" emptyWorld] u n pr
    by (simp add: emptyWorld_def usernameError_def scenarioEnv_def)
qed

section \<open>Repeated assembly\<close>

text \<open>
  C8. \<^verbatim>\<open>filterContracts\<close> is called twice with the same contract list, the same
  configuration and the same graph, the second call starting from the store
  and the console that the first call left (whatever the store held before the
  first call). The two requests are structurally identical, and equal to the
  request computed from the inputs alone; the second call leaves the request
  of the first call as it was; and the two requests share no object: their
  arrays are different objects and refer to different \<^verbatim>\<open>TenderlyContract\<close>
  objects.
\<close>

theorem filterContracts_repeatable:
  assumes first: "filterContracts_store env g cs s0 w0 = (r1, s1, w1)"
    and second: "filterContracts_store env g cs s1 w1 = (r2, s2, w2)"
  shows "map_option (readRequest s2) r2 = map_option (readRequest s1) r1
       \<and> map_option (readRequest s2) r1 = map_option (readRequest s1) r1
       \<and> map_option (readRequest s1) r1 = fst (filterContracts env g cs w0)
       \<and> (\<forall>q1 q2. r1 = Some q1 \<and> r2 = Some q2 \<longrightarrow>
             contractsRef q1 \<noteq> contractsRef q2 \<and>
             set (arrayCells s2 ! contractsRef q1) \<inter> set (arrayCells s2 ! contractsRef q2) = {})"
proof -
  note A = filterContracts_store_eq [OF first]
  note B = filterContracts_store_eq [OF second]
  from A(3) obtain xs where xs: "arrayCells s1 = arrayCells s0 @ [xs]"
    "set xs \<subseteq> {length (contractCells s0) ..< length (contractCells s1)}" by blast
  from B(3) obtain ys where ys: "arrayCells s2 = arrayCells s1 @ [ys]"
    "set ys \<subseteq> {length (contractCells s1) ..< length (contractCells s2)}" by blast
  from B(4) obtain cs' where cs': "contractCells s2 = contractCells s1 @ cs'" by blast
  have same: "map_option (readRequest s2) r2 = map_option (readRequest s1) r1"
    unfolding A(1) B(1) by (rule filterContracts_fst_world)
  have kept: "map_option (readRequest s2) r1 = map_option (readRequest s1) r1"
  proof (cases r1)
    case None
    then show ?thesis by simp
  next
    case (Some q)
    with A(5) have q: "contractsRef q = length (arrayCells s0)" by simp
    have "map (\<lambda>a. contractCells s2 ! a) xs = map (\<lambda>a. contractCells s1 ! a) xs"
      using xs(2) by (auto simp: cs' nth_append)
    with Some q show ?thesis
      by (simp add: readRequest_def xs ys nth_append)
  qed
  have fresh: "\<forall>q1 q2. r1 = Some q1 \<and> r2 = Some q2 \<longrightarrow>
      contractsRef q1 \<noteq> contractsRef q2 \<and>
      set (arrayCells s2 ! contractsRef q1) \<inter> set (arrayCells s2 ! contractsRef q2) = {}"
  proof (intro allI impI)
    fix q1 q2 assume a: "r1 = Some q1 \<and> r2 = Some q2"
    with A(5) B(5) have q: "contractsRef q1 = length (arrayCells s0)"
      "contractsRef q2 = length (arrayCells s1)"
      by simp_all
    then have 1: "arrayCells s2 ! contractsRef q1 = xs" "arrayCells s2 ! contractsRef q2 = ys"
      by (simp_all add: xs ys nth_append)
    from xs(2) ys(2) have "set xs \<inter> set ys = {}" by fastforce
    with q 1 xs(1) show "contractsRef q1 \<noteq> contractsRef q2 \<and>
        set (arrayCells s2 ! contractsRef q1) \<inter> set (arrayCells s2 ! contractsRef q2) = {}"
      by simp
  qed
  from same kept A(1) fresh show ?thesis by blast
qed

theorem filterContracts_repeatable_witness:
  "filterContracts_store scenarioEnv scenarioGraph [token] emptyStore emptyWorld =
     (Some \<lparr>contractsRef = 0, configValue = ()\<rparr>, afterFirst, emptyWorld) \<and>
   filterContracts_store scenarioEnv scenarioGraph [token] afterFirst emptyWorld =
     (Some \<lparr>contractsRef = 1, configValue = ()\<rparr>, afterSecond, emptyWorld) \<and>
   readRequest afterSecond \<lparr>contractsRef = 1, configValue = ()\<rparr> = scenarioRequest [(''3'', ''0xabc'')] \<and>
   readRequest afterSecond \<lparr>contractsRef = 0, configValue = ()\<rparr> = scenarioRequest [(''3'', ''0xabc'')] \<and>
   set (arrayCells afterSecond ! 0) \<inter> set (arrayCells afterSecond ! 1) = {}"
proof -
  have 1: "filterContracts_store scenarioEnv scenarioGraph [token] emptyStore emptyWorld =
      (Some \<lparr>contractsRef = 0, configValue = ()\<rparr>, afterFirst, emptyWorld)"
    by code_simp
  have 2: "filterContracts_store scenarioEnv scenarioGraph [token] afterFirst emptyWorld =
      (Some \<lparr>contractsRef = 1, configValue = ()\<rparr>, afterSecond, emptyWorld)"
    by code_simp
  have p: "fst (filterContracts scenarioEnv scenarioGraph [token] emptyWorld) =
      Some (scenarioRequest [(''3'', ''0xabc'')])"
    by code_simp
  note t = filterContracts_repeatable [OF 1 2]
  from t p
  have r: "readRequest afterSecond \<lparr>contractsRef = 1, configValue = ()\<rparr> = scenarioRequest [(''3'', ''0xabc'')]"
    "readRequest afterSecond \<lparr>contractsRef = 0, configValue = ()\<rparr> = scenarioRequest [(''3'', ''0xabc'')]"
    by simp_all
  from t have "set (arrayCells afterSecond ! contractsRef \<lparr>contractsRef = 0, configValue = ()\<rparr>) \<inter>
      set (arrayCells afterSecond ! contractsRef \<lparr>contractsRef = 1, configValue = ()\<rparr>) = {}"
    by blast
  then have d: "set (arrayCells afterSecond ! 0) \<inter> set (arrayCells afterSecond ! 1) = {}"
    by simp
  from 1 2 r d show ?thesis by blast
qed

end
